theory Spec2Isabelle
  imports Complex_Main "HOL-Library.Sublist" "HOL-Library.Monad_Syntax"
begin

section \<open>fuzzy-match-utils: the four exported functions of dist/fuzzy-match-utils.js\<close>

text \<open>
  A shallow embedding of \<^verbatim>\<open>filterOptions\<close>, \<^verbatim>\<open>typeaheadSimilarity\<close>,
  \<^verbatim>\<open>fullStringDistance\<close> and \<^verbatim>\<open>cleanUpText\<close>.

  \<^item> A JavaScript string is the list of its UTF-16 code units, each a natural number.
  \<^item> A JavaScript number is the rational value of a double. Lengths, table cells and
    their sums are integers below \<open>2^53\<close> (no JavaScript string is longer), which doubles
    hold exactly. The one inexact computation of the program, \<open>bLength + 1 / aLength\<close>,
    is rounded as the language rounds it (\<open>roundDouble\<close>). The difference of two scores
    in the comparison function of the sort has the sign of the exact difference.
  \<^item> A JavaScript array is a partial map from indices to values; an index that was never
    written reads as \<open>None\<close> (\<^verbatim>\<open>undefined\<close>).
  \<^item> \<open>null\<close> and \<open>undefined\<close> arguments are \<open>None\<close>.
  \<^item> A thrown exception is \<open>Inl\<close> of a sum type.
\<close>

subsection \<open>Strings and the built-in string operations\<close>

type_synonym jsstring = "nat list"

text \<open>An ASCII literal as a JavaScript string.\<close>

definition ascii :: "string \<Rightarrow> jsstring" where
  "ascii s = map of_char s"

text \<open>\<^verbatim>\<open>s[i]\<close>: the code unit at index \<open>i\<close>, \<^verbatim>\<open>undefined\<close> out of range.\<close>

definition charAt :: "'a list \<Rightarrow> nat \<Rightarrow> 'a option" where
  "charAt s i = (if i < length s then Some (s ! i) else None)"

text \<open>
  \<^verbatim>\<open>a.indexOf(b)\<close>: the first index at which \<open>b\<close> occurs in \<open>a\<close> as a contiguous run,
  \<open>-1\<close> when there is none.
\<close>

fun indexOfFrom :: "'a list \<Rightarrow> 'a list \<Rightarrow> nat \<Rightarrow> int" where
  "indexOfFrom [] b k = (if b = [] then int k else - 1)"
| "indexOfFrom (c # cs) b k =
     (if prefix b (c # cs) then int k else indexOfFrom cs b (Suc k))"

definition indexOf :: "'a list \<Rightarrow> 'a list \<Rightarrow> int" where
  "indexOf a b = indexOfFrom a b 0"

text \<open>
  \<^verbatim>\<open>String.prototype.toUpperCase\<close> is a built-in of the language, not code of the
  repository. It maps every code point through Unicode's full upper-case mapping, with
  no dependence on context. For the code units below U+0100 (Basic Latin and Latin-1
  Supplement, each a code point of its own) the mapping is written out:
  \<open>a\<close>..\<open>z\<close>, U+00E0..U+00F6 and U+00F8..U+00FE move down by 32, the micro sign
  U+00B5 becomes U+039C, the sharp s U+00DF becomes \<open>SS\<close>, U+00FF becomes U+0178,
  everything else stays.
\<close>

definition upperLatin1 :: "nat \<Rightarrow> jsstring" where
  "upperLatin1 c =
     (if 97 \<le> c \<and> c \<le> 122 then [c - 32]
      else if c = 181 then [924]
      else if c = 223 then [83, 83]
      else if 224 \<le> c \<and> c \<le> 254 \<and> c \<noteq> 247 then [c - 32]
      else if c = 255 then [376]
      else [c])"

text \<open>
  The rest of Unicode's table is a parameter \<open>hi\<close>: the upper-casing of a maximal run
  of code units from U+0100 upwards (such a run is a sequence of whole code points,
  surrogate pairs included).
\<close>

function toUpperCase :: "(jsstring \<Rightarrow> jsstring) \<Rightarrow> jsstring \<Rightarrow> jsstring" where
  "toUpperCase hi [] = []"
| "toUpperCase hi (c # cs) =
     (if c < 256 then upperLatin1 c @ toUpperCase hi cs
      else hi (c # takeWhile (\<lambda>u. 256 \<le> u) cs)
             @ toUpperCase hi (dropWhile (\<lambda>u. 256 \<le> u) cs))"
  by pat_completeness auto
termination
  by (relation "measure (\<lambda>(hi, s). length s)")
     (auto simp: length_dropWhile_le less_Suc_eq_le)

text \<open>
  The language's services that the program calls: the upper-case table above U+00FF, and
  \<^verbatim>\<open>output.replace(new RegExp(pattern, 'g'), replacement)\<close>, with \<open>None\<close> when
  \<^verbatim>\<open>new RegExp\<close> throws on a malformed pattern.
\<close>

record engine =
  upperHigh :: "jsstring \<Rightarrow> jsstring"
  regexReplace :: "jsstring \<Rightarrow> jsstring \<Rightarrow> jsstring \<Rightarrow> jsstring option"

datatype error = SyntaxError | UndefinedRead

subsection \<open>Arrays and counting loops\<close>

type_synonym 'a jsarray = "nat \<rightharpoonup> 'a"

text \<open>\<^verbatim>\<open>table[x][y]\<close>, and \<^verbatim>\<open>table[x][y] = v\<close> (which needs the row \<^verbatim>\<open>table[x]\<close>).\<close>

definition getCell :: "'a jsarray jsarray \<Rightarrow> nat \<Rightarrow> nat \<Rightarrow> 'a option" where
  "getCell t x y = (case t x of None \<Rightarrow> None | Some row \<Rightarrow> row y)"

definition setCell :: "'a jsarray jsarray \<Rightarrow> nat \<Rightarrow> nat \<Rightarrow> 'a \<Rightarrow> 'a jsarray jsarray option" where
  "setCell t x y v = (case t x of None \<Rightarrow> None | Some row \<Rightarrow> Some (t(x \<mapsto> row(y \<mapsto> v))))"

text \<open>
  \<^verbatim>\<open>for (var i = lo; i <= n; ++i) body\<close> over a state \<open>s\<close>; the body fails (\<open>None\<close>) when
  it reads \<^verbatim>\<open>undefined\<close> where a number or a row is needed.
\<close>

function forLoop :: "nat \<Rightarrow> nat \<Rightarrow> (nat \<Rightarrow> 's \<Rightarrow> 's option) \<Rightarrow> 's \<Rightarrow> 's option" where
  "forLoop i n body s =
     (if i \<le> n then (case body i s of None \<Rightarrow> None | Some s' \<Rightarrow> forLoop (Suc i) n body s')
      else Some s)"
  by pat_completeness auto
termination
  by (relation "measure (\<lambda>(i, n, body, s). Suc n - i)") auto

subsection \<open>Numbers\<close>

text \<open>
  Rounding to the nearest double (IEEE 754 binary64, ties to even), on rationals. A
  positive \<open>x\<close> with \<open>2^e \<le> x < 2^(e+1)\<close> is rounded to a multiple of \<open>2^(e-52)\<close>, and of
  \<open>2^-1074\<close> when it is subnormal. Overflow to infinity (from \<open>2^1024\<close>) is not modelled:
  no length reaches it.
\<close>

text \<open>The nearest integer, the even one of two that are equally near.\<close>

definition roundHalfEven :: "rat \<Rightarrow> int" where
  "roundHalfEven t =
     (let f = \<lfloor>t\<rfloor>; d = t - of_int f in
      if d < 1 / 2 then f
      else if 1 / 2 < d then f + 1
      else if even f then f else f + 1)"

text \<open>The binary exponent of a positive rational: \<open>expo x = e\<close> with \<open>2^e \<le> x < 2^(e+1)\<close>.\<close>

function expoUp :: "rat \<Rightarrow> int \<Rightarrow> int" where
  "expoUp x k = (if 2 \<le> x then expoUp (x / 2) (k + 1) else k)"
  by pat_completeness auto
termination
proof (relation "measure (\<lambda>(x, k). nat \<lfloor>x\<rfloor>)")
  show "wf (measure (\<lambda>(x :: rat, k :: int). nat \<lfloor>x\<rfloor>))" by simp
next
  fix x :: rat and k :: int
  assume x: "2 \<le> x"
  have "x / 2 \<le> x - 1" using x by simp
  then have "\<lfloor>x / 2\<rfloor> \<le> \<lfloor>x - 1\<rfloor>" by (rule floor_mono)
  then have "\<lfloor>x / 2\<rfloor> < \<lfloor>x\<rfloor>" by simp
  moreover have "0 < \<lfloor>x\<rfloor>" using x by simp
  ultimately show "((x / 2, k + 1), (x, k)) \<in> measure (\<lambda>(x, k). nat \<lfloor>x\<rfloor>)"
    by simp
qed

function expoDown :: "rat \<Rightarrow> int \<Rightarrow> int" where
  "expoDown x k = (if 0 < x \<and> x < 1 then expoDown (2 * x) (k - 1) else k)"
  by pat_completeness auto
termination
proof (relation "measure (\<lambda>(x, k). nat \<lceil>1 / x\<rceil>)")
  show "wf (measure (\<lambda>(x :: rat, k :: int). nat \<lceil>1 / x\<rceil>))" by simp
next
  fix x :: rat and k :: int
  assume x: "0 < x \<and> x < 1"
  then have t: "1 < 1 / x" by simp
  then have c: "2 \<le> \<lceil>1 / x\<rceil>" by (simp add: le_ceiling_iff)
  have "1 / x \<le> of_int \<lceil>1 / x\<rceil>" by (rule le_of_int_ceiling)
  then have "1 / (2 * x) \<le> of_int \<lceil>1 / x\<rceil> / 2" by simp
  also have "\<dots> \<le> of_int (\<lceil>1 / x\<rceil> - 1)" using c by simp
  finally have "\<lceil>1 / (2 * x)\<rceil> \<le> \<lceil>1 / x\<rceil> - 1" by (rule ceiling_le)
  then show "((2 * x, k - 1), (x, k)) \<in> measure (\<lambda>(x, k). nat \<lceil>1 / x\<rceil>)"
    using c x by simp
qed

definition expo :: "rat \<Rightarrow> int" where
  "expo x = (if 1 \<le> x then expoUp x 0 else expoDown x 0)"

definition roundDouble :: "rat \<Rightarrow> rat" where
  "roundDouble x =
     (if x = 0 then 0
      else
        let q = 2 powi (max (expo \<bar>x\<bar>) (- 1022) - 52) in
        sgn x * of_int (roundHalfEven (\<bar>x\<bar> / q)) * q)"

subsection \<open>typeaheadSimilarity\<close>

text \<open>
  The swap exchanges the two strings only: \<open>aLength\<close> and \<open>bLength\<close> keep the lengths of
  the arguments as passed, as in the source.
\<close>

definition typeaheadSimilarity :: "'a list \<Rightarrow> 'a list \<Rightarrow> rat option" where
  "typeaheadSimilarity a b =
     (let aLength = length a; bLength = length b in
      if aLength = 0 \<or> bLength = 0 then Some 0
      else
        let (a', b') = (if aLength < bLength then (b, a) else (a, b)) in
        if indexOf a' b' \<noteq> - 1
        then Some (roundDouble (of_nat bLength + roundDouble (1 / of_nat aLength)))
        else do {
          t1 \<leftarrow> forLoop 0 aLength (\<lambda>x t. Some (t(x \<mapsto> [0 \<mapsto> (0::nat)]))) Map.empty;
          t2 \<leftarrow> forLoop 0 bLength (\<lambda>y t. setCell t 0 y 0) t1;
          t3 \<leftarrow> forLoop 1 aLength (\<lambda>x t. forLoop 1 bLength (\<lambda>y t.
                  if charAt a' (x - 1) = charAt b' (y - 1)
                  then do { d \<leftarrow> getCell t (x - 1) (y - 1); setCell t x y (1 + d) }
                  else do { l \<leftarrow> getCell t x (y - 1); u \<leftarrow> getCell t (x - 1) y;
                            setCell t x y (max l u) }) t) t2;
          r \<leftarrow> getCell t3 aLength bLength;
          Some (of_nat r)
        })"

subsection \<open>fullStringDistance\<close>

definition fullStringDistance :: "'a list \<Rightarrow> 'a list \<Rightarrow> nat option" where
  "fullStringDistance a b =
     (let aLength = length a; bLength = length b in
      if aLength = 0 then Some bLength
      else if bLength = 0 then Some aLength
      else do {
        t1 \<leftarrow> forLoop 0 aLength (\<lambda>x t. Some (t(x \<mapsto> [0 \<mapsto> x]))) Map.empty;
        t2 \<leftarrow> forLoop 0 bLength (\<lambda>y t. setCell t 0 y y) t1;
        t3 \<leftarrow> forLoop 1 aLength (\<lambda>x t. forLoop 1 bLength (\<lambda>y t.
                if charAt a (x - 1) = charAt b (y - 1)
                then do { d \<leftarrow> getCell t (x - 1) (y - 1); setCell t x y d }
                else do { u \<leftarrow> getCell t (x - 1) y; l \<leftarrow> getCell t x (y - 1);
                          d \<leftarrow> getCell t (x - 1) (y - 1);
                          setCell t x y (1 + min u (min l d)) }) t) t2;
        getCell t3 aLength bLength
      })"

subsection \<open>cleanUpText\<close>

text \<open>
  The pattern \<^verbatim>\<open>/((?=[^\u00E0-\u00FC])\W)|_/g\<close> matches one code unit at a time: a unit
  outside U+00E0..U+00FC that is not a word character (\<^verbatim>\<open>\W\<close>: not a digit, an ASCII
  letter or the underscore), or the underscore. Replacing every match by the empty string
  keeps the other units in order.
\<close>

definition isWordChar :: "nat \<Rightarrow> bool" where
  "isWordChar c \<longleftrightarrow> (48 \<le> c \<and> c \<le> 57) \<or> (65 \<le> c \<and> c \<le> 90) \<or> c = 95 \<or> (97 \<le> c \<and> c \<le> 122)"

definition stripMatch :: "nat \<Rightarrow> bool" where
  "stripMatch c \<longleftrightarrow> (\<not> (224 \<le> c \<and> c \<le> 252) \<and> \<not> isWordChar c) \<or> c = 95"

definition stripNonAlnum :: "jsstring \<Rightarrow> jsstring" where
  "stripNonAlnum s = filter (\<lambda>c. \<not> stripMatch c) s"

text \<open>
  A substitution table is the list of its entries in the order of \<^verbatim>\<open>Object.keys\<close>. The
  \<^verbatim>\<open>reduce\<close> applies them left to right, each to the output of the one before.
\<close>

type_synonym substitutions = "(jsstring \<times> jsstring) list"

fun applySubstitutions :: "engine \<Rightarrow> substitutions \<Rightarrow> jsstring \<Rightarrow> error + jsstring" where
  "applySubstitutions js [] output = Inr output"
| "applySubstitutions js ((substitution, replacement) # rest) output =
     (case regexReplace js substitution replacement output of
        None \<Rightarrow> Inl SyntaxError
      | Some output' \<Rightarrow> applySubstitutions js rest output')"

definition cleanUpText :: "engine \<Rightarrow> jsstring option \<Rightarrow> substitutions option \<Rightarrow> error + jsstring" where
  "cleanUpText js input substitutions =
     (case input of
        None \<Rightarrow> Inr []
      | Some inp \<Rightarrow>
          if inp = [] then Inr []
          else
            let input' = stripNonAlnum (toUpperCase (upperHigh js) inp) in
            (case substitutions of
               None \<Rightarrow> Inr input'
             | Some safeSubstitutions \<Rightarrow> applySubstitutions js safeSubstitutions input'))"

subsection \<open>filterOptions\<close>

text \<open>An Option of React Select: a label and a value, either of which may be missing.\<close>

record 'v Option_rec =
  label :: "jsstring option"
  "value" :: "'v option"

text \<open>The callback of the first \<^verbatim>\<open>map\<close>: the pair of an option and its score.\<close>

definition scorePair ::
  "engine \<Rightarrow> substitutions option \<Rightarrow> jsstring \<Rightarrow> 'v Option_rec \<Rightarrow> error + ('v Option_rec \<times> rat)" where
  "scorePair js substitutions cleanFilter option =
     (case cleanUpText js (label option) substitutions of
        Inl e \<Rightarrow> Inl e
      | Inr cleanLabel \<Rightarrow>
          (case typeaheadSimilarity cleanLabel cleanFilter of
             None \<Rightarrow> Inl UndefinedRead
           | Some sc \<Rightarrow> Inr (option, sc)))"

text \<open>\<^verbatim>\<open>Array.prototype.map\<close> with a callback that may throw: the first exception ends it.\<close>

fun mapE :: "('a \<Rightarrow> error + 'b) \<Rightarrow> 'a list \<Rightarrow> error + 'b list" where
  "mapE f [] = Inr []"
| "mapE f (x # xs) =
     (case f x of
        Inl e \<Rightarrow> Inl e
      | Inr y \<Rightarrow> (case mapE f xs of Inl e \<Rightarrow> Inl e | Inr ys \<Rightarrow> Inr (y # ys)))"

text \<open>
  \<^verbatim>\<open>Array.prototype.sort(comparefn)\<close>: a stable sort (ECMAScript 2019); \<open>x\<close> stays before
  \<open>y\<close> unless \<open>comparefn x y\<close> is positive.
\<close>

fun insertBy :: "('a \<Rightarrow> 'a \<Rightarrow> rat) \<Rightarrow> 'a \<Rightarrow> 'a list \<Rightarrow> 'a list" where
  "insertBy cmp x [] = [x]"
| "insertBy cmp x (y # ys) = (if cmp x y \<le> 0 then x # y # ys else y # insertBy cmp x ys)"

fun sortBy :: "('a \<Rightarrow> 'a \<Rightarrow> rat) \<Rightarrow> 'a list \<Rightarrow> 'a list" where
  "sortBy cmp [] = []"
| "sortBy cmp (x # xs) = insertBy cmp x (sortBy cmp xs)"

definition filterOptions ::
  "engine \<Rightarrow> 'v Option_rec list \<Rightarrow> jsstring option \<Rightarrow> substitutions option
     \<Rightarrow> error + 'v Option_rec list" where
  "filterOptions js options filter' substitutions =
     (if filter' = None \<or> filter' = Some [] then Inr options
      else
        (case cleanUpText js filter' substitutions of
           Inl e \<Rightarrow> Inl e
         | Inr cleanFilter \<Rightarrow>
             (case mapE (scorePair js substitutions cleanFilter)
                     (filter (\<lambda>option. label option \<noteq> None \<and> value option \<noteq> None) options) of
                Inl e \<Rightarrow> Inl e
              | Inr pairs \<Rightarrow>
                  Inr (map fst
                        (sortBy (\<lambda>a b. snd b - snd a)
                          (filter (\<lambda>pair. of_nat (length cleanFilter) - 2 \<le> snd pair) pairs))))))"

subsection \<open>A sample engine\<close>

text \<open>
  An instance of the language's services for the concrete runs below: above U+00FF it
  upper-cases the dotless i (U+0131) to \<open>I\<close> and the long s (U+017F) to \<open>S\<close> and leaves
  every other code unit; its regular expressions are the one-letter literal patterns.
\<close>

definition demoEngine :: engine where
  "demoEngine =
     \<lparr> upperHigh = concat \<circ> map (\<lambda>u. if u = 305 then [73] else if u = 383 then [83] else [u]),
       regexReplace = (\<lambda>pattern replacement output.
         (case pattern of
            [c] \<Rightarrow>
              if isWordChar c \<or> 128 \<le> c
              then Some (concat (map (\<lambda>u. if u = c then replacement else [u]) output))
              else None
          | _ \<Rightarrow> None)) \<rparr>"

section \<open>Specification\<close>

subsection \<open>Levenshtein distance\<close>

text \<open>
  One edit: the insertion, the deletion or the substitution of a single character, at any
  place of the string. The Levenshtein distance of \<open>a\<close> and \<open>b\<close> is the least number of
  edits that lead from \<open>a\<close> to \<open>b\<close>.
\<close>

inductive edit1 :: "'a list \<Rightarrow> 'a list \<Rightarrow> bool" where
  insertion: "edit1 (u @ v) (u @ c # v)"
| deletion: "edit1 (u @ c # v) (u @ v)"
| substitution: "edit1 (u @ c # v) (u @ d # v)"

definition editDistance :: "'a list \<Rightarrow> 'a list \<Rightarrow> nat" where
  "editDistance a b = (LEAST n. (edit1 ^^ n) a b)"

subsection \<open>What the engine must guarantee above U+00FF\<close>

text \<open>
  Unicode's upper-case mapping of a code point from U+0100 upwards never yields a
  lower-case ASCII letter nor a code unit of the range U+00E0..U+00FC.
\<close>

definition upperHighOk :: "(jsstring \<Rightarrow> jsstring) \<Rightarrow> bool" where
  "upperHighOk hi \<longleftrightarrow>
     (\<forall>r. (\<forall>u \<in> set r. 256 \<le> u) \<longrightarrow>
        (\<forall>u \<in> set (hi r). \<not> (97 \<le> u \<and> u \<le> 122) \<and> \<not> (224 \<le> u \<and> u \<le> 252)))"

section \<open>Auxiliary functions of the proofs\<close>

text \<open>The recurrences that the two tables follow, on lists read from their ends.\<close>

fun lev :: "'a list \<Rightarrow> 'a list \<Rightarrow> nat" where
  "lev [] ys = length ys"
| "lev xs [] = length xs"
| "lev (x # xs) (y # ys) =
     (if x = y then lev xs ys
      else 1 + min (lev xs (y # ys)) (min (lev (x # xs) ys) (lev xs ys)))"

fun lcs :: "'a list \<Rightarrow> 'a list \<Rightarrow> nat" where
  "lcs [] ys = 0"
| "lcs xs [] = 0"
| "lcs (x # xs) (y # ys) =
     (if x = y then 1 + lcs xs ys else max (lcs (x # xs) ys) (lcs xs (y # ys)))"

text \<open>The first \<open>k\<close> characters of a string as the program reads them, last one first.\<close>

definition readBack :: "'a list \<Rightarrow> nat \<Rightarrow> 'a option list" where
  "readBack s k = rev (map (charAt s) [0..<k])"

text \<open>
  The loop invariant of a table fill: of the cells \<open>(i, j)\<close> with \<open>i \<le> n\<close> and \<open>j \<le> m\<close>,
  row 0, column 0, the rows before \<open>x\<close> and the cells of row \<open>x\<close> before \<open>y\<close> hold \<open>D i j\<close>.
\<close>

definition tableHas ::
  "(nat \<Rightarrow> nat \<Rightarrow> nat) \<Rightarrow> nat \<Rightarrow> nat \<Rightarrow> nat \<Rightarrow> nat \<Rightarrow> nat jsarray jsarray \<Rightarrow> bool" where
  "tableHas D n m x y t \<longleftrightarrow>
     (\<forall>i j. i \<le> n \<and> j \<le> m \<and> (i = 0 \<or> j = 0 \<or> i < x \<or> (i = x \<and> j < y))
        \<longrightarrow> getCell t i j = Some (D i j))"

section \<open>Counting loops and table fills\<close>

declare forLoop.simps [simp del]

lemma forLoop_rule_aux:
  assumes step: "\<And>i s. lo \<le> i \<Longrightarrow> i \<le> n \<Longrightarrow> I i s \<Longrightarrow> \<exists>s'. body i s = Some s' \<and> I (Suc i) s'"
  shows "lo \<le> i \<Longrightarrow> i \<le> Suc n \<Longrightarrow> I i s \<Longrightarrow> \<exists>s'. forLoop i n body s = Some s' \<and> I (Suc n) s'"
proof (induction "Suc n - i" arbitrary: i s)
  case 0
  then have "i = Suc n" by simp
  with 0 show ?case by (simp add: forLoop.simps)
next
  case (Suc k)
  then have le: "i \<le> n" by simp
  from step[OF Suc.prems(1) le Suc.prems(3)] obtain s' where
    s': "body i s = Some s'" "I (Suc i) s'" by blast
  have "\<exists>s''. forLoop (Suc i) n body s' = Some s'' \<and> I (Suc n) s''"
    using Suc.hyps(1)[of "Suc i" s'] Suc.hyps(2) Suc.prems(1) le s'(2) by simp
  then show ?case using le s'(1) by (subst forLoop.simps) simp
qed

lemma forLoop_rule:
  assumes "I lo s" and "lo \<le> Suc n"
    and "\<And>i s. lo \<le> i \<Longrightarrow> i \<le> n \<Longrightarrow> I i s \<Longrightarrow> \<exists>s'. body i s = Some s' \<and> I (Suc i) s'"
  shows "\<exists>s'. forLoop lo n body s = Some s' \<and> I (Suc n) s'"
  using forLoop_rule_aux[of lo n I body lo s] assms by blast

lemma getCell_setCell:
  "setCell t x y v = Some t' \<Longrightarrow> getCell t' i j = (if i = x \<and> j = y then Some v else getCell t i j)"
  by (auto simp: getCell_def setCell_def split: option.splits if_splits)

lemma setCell_defined: "getCell t x j = Some w \<Longrightarrow> \<exists>t'. setCell t x y v = Some t'"
  by (auto simp: getCell_def setCell_def split: option.splits)

lemma tableHasD:
  "tableHas D n m x y t \<Longrightarrow> i \<le> n \<Longrightarrow> j \<le> m \<Longrightarrow> i = 0 \<or> j = 0 \<or> i < x \<or> (i = x \<and> j < y)
     \<Longrightarrow> getCell t i j = Some (D i j)"
  unfolding tableHas_def by blast

lemma tableHas_cell:
  assumes inv: "tableHas D n m x y t" and x: "x \<le> n" and y: "1 \<le> y" "y \<le> m"
  shows "\<exists>t'. setCell t x y (D x y) = Some t' \<and> tableHas D n m x (Suc y) t'"
proof -
  have "getCell t x 0 = Some (D x 0)"
    using tableHasD[OF inv, of x 0] x by simp
  from setCell_defined[OF this, of y "D x y"] obtain t' where
    t': "setCell t x y (D x y) = Some t'" by blast
  have "tableHas D n m x (Suc y) t'"
    unfolding tableHas_def
  proof (intro allI impI)
    fix i j
    assume a: "i \<le> n \<and> j \<le> m \<and> (i = 0 \<or> j = 0 \<or> i < x \<or> (i = x \<and> j < Suc y))"
    show "getCell t' i j = Some (D i j)"
    proof (cases "i = x \<and> j = y")
      case True
      then show ?thesis by (simp add: getCell_setCell[OF t'])
    next
      case False
      with a have "i = 0 \<or> j = 0 \<or> i < x \<or> (i = x \<and> j < y)" by auto
      with a inv have "getCell t i j = Some (D i j)" by (auto dest: tableHasD)
      with False show ?thesis by (simp add: getCell_setCell[OF t'])
    qed
  qed
  with t' show ?thesis by blast
qed

lemma tableHas_next_row:
  assumes "tableHas D n m x (Suc m) t"
  shows "tableHas D n m (Suc x) 1 t"
  unfolding tableHas_def
proof (intro allI impI)
  fix i j
  assume a: "i \<le> n \<and> j \<le> m \<and> (i = 0 \<or> j = 0 \<or> i < Suc x \<or> (i = Suc x \<and> j < 1))"
  then have "i = 0 \<or> j = 0 \<or> i < x \<or> (i = x \<and> j < Suc m)" by auto
  with a show "getCell t i j = Some (D i j)"
    using tableHasD[OF assms, of i j] by blast
qed

lemma fill_row:
  assumes body: "\<And>y t. 1 \<le> y \<Longrightarrow> y \<le> m \<Longrightarrow> tableHas D n m x y t \<Longrightarrow> body y t = setCell t x y (D x y)"
    and x: "x \<le> n" and t: "tableHas D n m x 1 t"
  shows "\<exists>t'. forLoop 1 m body t = Some t' \<and> tableHas D n m (Suc x) 1 t'"
proof -
  have "\<exists>t'. forLoop 1 m body t = Some t' \<and> tableHas D n m x (Suc m) t'"
  proof (rule forLoop_rule[where I = "\<lambda>y t. tableHas D n m x y t"])
    show "tableHas D n m x 1 t" by (rule t)
    show "1 \<le> Suc m" by simp
  next
    fix y s
    assume y: "1 \<le> y" "y \<le> m" and inv: "tableHas D n m x y s"
    from tableHas_cell[OF inv x y] body[OF y inv]
    show "\<exists>s'. body y s = Some s' \<and> tableHas D n m x (Suc y) s'" by simp
  qed
  then show ?thesis by (blast intro: tableHas_next_row)
qed

lemma fill_table:
  assumes body: "\<And>x y t. 1 \<le> x \<Longrightarrow> x \<le> n \<Longrightarrow> 1 \<le> y \<Longrightarrow> y \<le> m \<Longrightarrow> tableHas D n m x y t
                    \<Longrightarrow> body x y t = setCell t x y (D x y)"
    and t: "tableHas D n m 1 1 t"
  shows "\<exists>t'. forLoop 1 n (\<lambda>x t. forLoop 1 m (body x) t) t = Some t' \<and> tableHas D n m (Suc n) 1 t'"
proof (rule forLoop_rule[where I = "\<lambda>x t. tableHas D n m x 1 t"])
  show "tableHas D n m 1 1 t" by (rule t)
  show "1 \<le> Suc n" by simp
next
  fix x s
  assume x: "1 \<le> x" "x \<le> n" and inv: "tableHas D n m x 1 s"
  show "\<exists>s'. forLoop 1 m (body x) s = Some s' \<and> tableHas D n m (Suc x) 1 s'"
    by (rule fill_row[OF _ x(2) inv]) (rule body[OF x])
qed

lemma init_rows:
  "\<exists>t1. forLoop 0 n (\<lambda>x t. Some (t(x \<mapsto> [0::nat \<mapsto> c x]))) Map.empty = Some t1 \<and>
        (\<forall>i \<le> n. t1 i = Some [0::nat \<mapsto> c i])"
proof -
  have "\<exists>t1. forLoop 0 n (\<lambda>x t. Some (t(x \<mapsto> [0::nat \<mapsto> c x]))) Map.empty = Some t1 \<and>
          (\<forall>i < Suc n. t1 i = Some [0::nat \<mapsto> c i])"
    by (rule forLoop_rule[where I = "\<lambda>x t. \<forall>i < x. t i = Some [0::nat \<mapsto> c i]"])
       (auto simp: less_Suc_eq)
  then show ?thesis by (auto simp: less_Suc_eq_le)
qed

lemma init_row0:
  assumes t1: "\<forall>i \<le> n. t1 i = Some [0::nat \<mapsto> c i]"
  shows "\<exists>t2. forLoop 0 m (\<lambda>y t. setCell t 0 y (d y)) t1 = Some t2 \<and>
           (\<forall>j \<le> m. getCell t2 0 j = Some (d j)) \<and>
           (\<forall>i. 1 \<le> i \<and> i \<le> n \<longrightarrow> getCell t2 i 0 = Some (c i))"
proof -
  let ?I = "\<lambda>y t. (\<forall>j < y. getCell t 0 j = Some (d j)) \<and> getCell t 0 0 \<noteq> None \<and>
                  (\<forall>i. 1 \<le> i \<and> i \<le> n \<longrightarrow> getCell t i 0 = Some (c i))"
  have "\<exists>t2. forLoop 0 m (\<lambda>y t. setCell t 0 y (d y)) t1 = Some t2 \<and> ?I (Suc m) t2"
  proof (rule forLoop_rule[where I = ?I])
    show "?I 0 t1" using t1 by (auto simp: getCell_def)
    show "0 \<le> Suc m" by simp
  next
    fix y s
    assume inv: "?I y s"
    then obtain w where "getCell s 0 0 = Some w" by auto
    from setCell_defined[OF this, of y "d y"] obtain s' where
      s': "setCell s 0 y (d y) = Some s'" by blast
    have "?I (Suc y) s'" using inv by (auto simp: getCell_setCell[OF s'] less_Suc_eq)
    with s' show "\<exists>s'. setCell s 0 y (d y) = Some s' \<and> ?I (Suc y) s'" by blast
  qed
  then show ?thesis by (auto simp: less_Suc_eq_le)
qed

lemma init_table:
  assumes row0: "\<And>j. j \<le> m \<Longrightarrow> D 0 j = d j" and col0: "\<And>i. 1 \<le> i \<Longrightarrow> i \<le> n \<Longrightarrow> D i 0 = c i"
  shows "\<exists>t1 t2. forLoop 0 n (\<lambda>x t. Some (t(x \<mapsto> [0::nat \<mapsto> c x]))) Map.empty = Some t1 \<and>
           forLoop 0 m (\<lambda>y t. setCell t 0 y (d y)) t1 = Some t2 \<and> tableHas D n m 1 1 t2"
proof -
  from init_rows[of n c] obtain t1 where
    t1: "forLoop 0 n (\<lambda>x t. Some (t(x \<mapsto> [0::nat \<mapsto> c x]))) Map.empty = Some t1"
        "\<forall>i \<le> n. t1 i = Some [0::nat \<mapsto> c i]" by blast
  from init_row0[OF t1(2), of m d] obtain t2 where
    t2: "forLoop 0 m (\<lambda>y t. setCell t 0 y (d y)) t1 = Some t2"
        "\<forall>j \<le> m. getCell t2 0 j = Some (d j)"
        "\<forall>i. 1 \<le> i \<and> i \<le> n \<longrightarrow> getCell t2 i 0 = Some (c i)" by blast
  have "tableHas D n m 1 1 t2"
    unfolding tableHas_def
  proof (intro allI impI)
    fix i j
    assume a: "i \<le> n \<and> j \<le> m \<and> (i = 0 \<or> j = 0 \<or> i < 1 \<or> (i = 1 \<and> j < 1))"
    show "getCell t2 i j = Some (D i j)"
    proof (cases "i = 0")
      case True
      with a t2(2) row0 show ?thesis by simp
    next
      case False
      with a have "j = 0" "1 \<le> i" "i \<le> n" by auto
      with t2(3) col0 show ?thesis by simp
    qed
  qed
  with t1(1) t2(1) show ?thesis by blast
qed

lemma readBack_0 [simp]: "readBack s 0 = []"
  by (simp add: readBack_def)

lemma readBack_Suc [simp]: "readBack s (Suc k) = charAt s k # readBack s k"
  by (simp add: readBack_def)

lemma length_readBack [simp]: "length (readBack s k) = k"
  by (simp add: readBack_def)

lemma readBack_length: "readBack s (length s) = rev (map Some s)"
proof -
  have "map (charAt s) [0..<length s] = map Some s"
    by (rule nth_equalityI) (simp_all add: charAt_def)
  then show ?thesis by (simp add: readBack_def)
qed

lemma lev_map_inj: "inj f \<Longrightarrow> lev (map f xs) (map f ys) = lev xs ys"
  by (induction xs ys rule: lev.induct) (auto simp: inj_eq)

lemma lcs_map_inj: "inj f \<Longrightarrow> lcs (map f xs) (map f ys) = lcs xs ys"
  by (induction xs ys rule: lcs.induct) (auto simp: inj_eq)

section \<open>The Levenshtein recurrence and the least number of edits\<close>

lemma lev_Nil2 [simp]: "lev xs [] = length xs"
  by (cases xs) auto

lemma lev_refl [simp]: "lev xs xs = 0"
  by (induction xs) auto

lemma lev_neighbours:
  "lev xs ys \<le> Suc (lev xs (y # ys)) \<and> lev (xs :: 'a list) ys \<le> Suc (lev (x # xs) ys) \<and>
   lev xs (y # ys) \<le> Suc (lev xs ys) \<and> lev (x # xs) ys \<le> Suc (lev xs ys)"
proof (induction "length xs + length ys" arbitrary: xs ys x y rule: less_induct)
  case less
  have IH:
    "lev xs' ys' \<le> Suc (lev xs' (y' # ys'))" "lev xs' ys' \<le> Suc (lev (x' # xs') ys')"
    "lev xs' (y' # ys') \<le> Suc (lev xs' ys')" "lev (x' # xs') ys' \<le> Suc (lev xs' ys')"
    if "length xs' + length ys' < length xs + length ys" for xs' ys' :: "'a list" and x' y'
    using less[OF that] by auto
  have l1: "lev xs ys \<le> Suc (lev xs (y # ys))"
  proof (cases xs)
    case Nil
    then show ?thesis by simp
  next
    case (Cons x' xs')
    have a: "lev (x' # xs') ys \<le> Suc (lev xs' ys)"
      using IH(4)[of xs' ys x'] Cons by simp
    have b: "lev xs' ys \<le> Suc (lev xs' (y # ys))"
      using IH(1)[of xs' ys y] Cons by simp
    show ?thesis using a b Cons by (auto simp: min_def)
  qed
  have l2: "lev xs ys \<le> Suc (lev (x # xs) ys)"
  proof (cases ys)
    case Nil
    then show ?thesis by simp
  next
    case (Cons y' ys')
    have a: "lev xs (y' # ys') \<le> Suc (lev xs ys')"
      using IH(3)[of xs ys' y'] Cons by simp
    have b: "lev xs ys' \<le> Suc (lev (x # xs) ys')"
      using IH(2)[of xs ys' x] Cons by simp
    show ?thesis using a b Cons by (auto simp: min_def)
  qed
  have u1: "lev xs (y # ys) \<le> Suc (lev xs ys)"
  proof (cases xs)
    case Nil
    then show ?thesis by simp
  next
    case (Cons x' xs')
    have "lev xs' ys \<le> Suc (lev (x' # xs') ys)"
      using IH(2)[of xs' ys x'] Cons by simp
    then show ?thesis using Cons by (auto simp: min_def)
  qed
  have u2: "lev (x # xs) ys \<le> Suc (lev xs ys)"
  proof (cases ys)
    case Nil
    then show ?thesis by simp
  next
    case (Cons y' ys')
    have "lev xs ys' \<le> Suc (lev xs (y' # ys'))"
      using IH(1)[of xs ys' y'] Cons by simp
    then show ?thesis using Cons by (auto simp: min_def)
  qed
  show ?case using l1 l2 u1 u2 by simp
qed

lemma lev_del_le: "lev (x # xs) ys \<le> Suc (lev xs ys)"
  using lev_neighbours[of xs ys] by simp

lemma lev_ins_le: "lev xs (y # ys) \<le> Suc (lev xs ys)"
  using lev_neighbours[of xs ys] by simp

lemma lev_drop_le: "lev xs ys \<le> Suc (lev xs (y # ys))"
  using lev_neighbours[of xs ys] by simp

lemma lev_sub_le: "lev (x # xs) (y # ys) \<le> (if x = y then 0 else 1) + lev xs ys"
  by (auto simp: min_def)

lemma lev_Cons_cases:
  "lev (x # xs) (y # ys) = Suc (lev xs (y # ys)) \<or>
   lev (x # xs) (y # ys) = Suc (lev (x # xs) ys) \<or>
   lev (x # xs) (y # ys) = (if x = y then 0 else 1) + lev xs ys"
  by (auto simp: min_def)

lemma lev_step_context:
  assumes "\<And>x. lev x z \<le> Suc (lev x y)"
  shows "lev x (c # z) \<le> Suc (lev x (c # y))"
proof (induction x)
  case Nil
  show ?case using assms[of "[]"] by simp
next
  case (Cons x1 xs)
  have b1: "lev (x1 # xs) (c # z) \<le> Suc (lev xs (c # z))" by (rule lev_del_le)
  have b2: "lev (x1 # xs) (c # z) \<le> Suc (lev (x1 # xs) z)" by (rule lev_ins_le)
  have b3: "lev (x1 # xs) (c # z) \<le> (if x1 = c then 0 else 1) + lev xs z" by (rule lev_sub_le)
  from lev_Cons_cases[of x1 xs c y] show ?case
  proof (elim disjE)
    assume "lev (x1 # xs) (c # y) = Suc (lev xs (c # y))"
    with b1 Cons.IH show ?thesis by simp
  next
    assume "lev (x1 # xs) (c # y) = Suc (lev (x1 # xs) y)"
    with b2 assms[of "x1 # xs"] show ?thesis by simp
  next
    assume "lev (x1 # xs) (c # y) = (if x1 = c then 0 else 1) + lev xs y"
    with b3 assms[of xs] show ?thesis by (simp split: if_splits)
  qed
qed

lemma lev_step_sub: "lev x (d # v) \<le> Suc (lev x (c # v))"
proof (induction x)
  case Nil
  show ?case by simp
next
  case (Cons x1 xs)
  have b1: "lev (x1 # xs) (d # v) \<le> Suc (lev xs (d # v))" by (rule lev_del_le)
  have b2: "lev (x1 # xs) (d # v) \<le> Suc (lev (x1 # xs) v)" by (rule lev_ins_le)
  have b3: "lev (x1 # xs) (d # v) \<le> (if x1 = d then 0 else 1) + lev xs v" by (rule lev_sub_le)
  from lev_Cons_cases[of x1 xs c v] show ?case
  proof (elim disjE)
    assume "lev (x1 # xs) (c # v) = Suc (lev xs (c # v))"
    with b1 Cons.IH show ?thesis by simp
  next
    assume "lev (x1 # xs) (c # v) = Suc (lev (x1 # xs) v)"
    with b2 show ?thesis by simp
  next
    assume "lev (x1 # xs) (c # v) = (if x1 = c then 0 else 1) + lev xs v"
    with b3 show ?thesis by (simp split: if_splits)
  qed
qed

lemma lev_step_append:
  assumes "\<And>x. lev x z \<le> Suc (lev x y)"
  shows "lev x (u @ z) \<le> Suc (lev x (u @ y))"
proof (induction u arbitrary: x)
  case Nil
  show ?case using assms by simp
next
  case (Cons c u)
  show ?case using lev_step_context[of "u @ z" "u @ y" x c] Cons.IH by simp
qed

lemma lev_edit1: "edit1 y z \<Longrightarrow> lev x z \<le> Suc (lev x y)"
proof (induction rule: edit1.induct)
  case (insertion u v c)
  show ?case by (rule lev_step_append) (rule lev_ins_le)
next
  case (deletion u c v)
  show ?case by (rule lev_step_append) (rule lev_drop_le)
next
  case (substitution u c v d)
  show ?case by (rule lev_step_append) (rule lev_step_sub)
qed

lemma lev_lower: "(edit1 ^^ n) a b \<Longrightarrow> lev a b \<le> n"
proof (induction n arbitrary: b)
  case 0
  then show ?case by simp
next
  case (Suc n)
  then obtain y where y: "(edit1 ^^ n) a y" "edit1 y b" by auto
  from lev_edit1[OF y(2), of a] Suc.IH[OF y(1)] show ?case by simp
qed

lemma edit1_Cons: "edit1 a b \<Longrightarrow> edit1 (c # a) (c # b)"
proof (induction rule: edit1.induct)
  case (insertion u v d)
  show ?case using edit1.insertion[of "c # u" v d] by simp
next
  case (deletion u d v)
  show ?case using edit1.deletion[of "c # u" d v] by simp
next
  case (substitution u d v e)
  show ?case using edit1.substitution[of "c # u" d v e] by simp
qed

lemma edits_Cons: "(edit1 ^^ n) a b \<Longrightarrow> (edit1 ^^ n) (c # a) (c # b)"
proof (induction n arbitrary: b)
  case 0
  then show ?case by simp
next
  case (Suc n)
  then obtain y where y: "(edit1 ^^ n) a y" "edit1 y b" by auto
  from Suc.IH[OF y(1)] edit1_Cons[OF y(2)] show ?case by auto
qed

lemma edit1_ins_head: "edit1 v (c # v)"
  using edit1.insertion[of "[]" v c] by simp

lemma edit1_del_head: "edit1 (c # v) v"
  using edit1.deletion[of "[]" c v] by simp

lemma edit1_sub_head: "edit1 (c # v) (d # v)"
  using edit1.substitution[of "[]" c v d] by simp

lemma edits_first: "edit1 a y \<Longrightarrow> (edit1 ^^ n) y b \<Longrightarrow> (edit1 ^^ Suc n) a b"
  by (rule relpowp_Suc_I2)

lemma edits_last: "(edit1 ^^ n) a y \<Longrightarrow> edit1 y b \<Longrightarrow> (edit1 ^^ Suc n) a b"
  by auto

lemma edits_insert_all: "(edit1 ^^ length ys) [] ys"
proof (induction ys)
  case Nil
  show ?case by simp
next
  case (Cons y ys)
  show ?case using edits_last[OF Cons.IH edit1_ins_head[of ys y]] by simp
qed

lemma edits_delete_all: "(edit1 ^^ length xs) xs []"
proof (induction xs)
  case Nil
  show ?case by simp
next
  case (Cons x xs)
  show ?case using edits_first[OF edit1_del_head[of x xs] Cons.IH] by simp
qed

lemma lev_upper: "(edit1 ^^ lev a b) a b"
proof (induction a b rule: lev.induct)
  case (1 ys)
  show ?case using edits_insert_all[of ys] by simp
next
  case (2 v va)
  show ?case using edits_delete_all[of "v # va"] by simp
next
  case (3 x xs y ys)
  show ?case
  proof (cases "x = y")
    case True
    with 3 show ?thesis using edits_Cons[of "lev xs ys" xs ys x] by simp
  next
    case False
    let ?d = "lev xs (y # ys)" and ?i = "lev (x # xs) ys" and ?s = "lev xs ys"
    have d: "(edit1 ^^ Suc ?d) (x # xs) (y # ys)"
      using edits_first[OF edit1_del_head[of x xs]] 3(2)[OF False] by blast
    have i: "(edit1 ^^ Suc ?i) (x # xs) (y # ys)"
      using edits_last[OF 3(3)[OF False] edit1_ins_head[of ys y]] .
    have s: "(edit1 ^^ Suc ?s) (x # xs) (y # ys)"
      using edits_first[OF edit1_sub_head[of x xs y] edits_Cons[OF 3(4)[OF False], of y]] .
    have "min ?d (min ?i ?s) = ?d \<or> min ?d (min ?i ?s) = ?i \<or> min ?d (min ?i ?s) = ?s"
      by (auto simp: min_def)
    then show ?thesis using d i s False by auto
  qed
qed

lemma editDistance_lev: "editDistance a b = lev a b"
  unfolding editDistance_def
  by (rule Least_equality) (auto intro: lev_upper lev_lower)

lemma edit1_rev: "edit1 a b \<Longrightarrow> edit1 (rev a) (rev b)"
proof (induction rule: edit1.induct)
  case (insertion u v c)
  show ?case using edit1.insertion[of "rev v" "rev u" c] by simp
next
  case (deletion u c v)
  show ?case using edit1.deletion[of "rev v" c "rev u"] by simp
next
  case (substitution u c v d)
  show ?case using edit1.substitution[of "rev v" c "rev u" d] by simp
qed

lemma edits_rev: "(edit1 ^^ n) a b \<Longrightarrow> (edit1 ^^ n) (rev a) (rev b)"
proof (induction n arbitrary: b)
  case 0
  then show ?case by simp
next
  case (Suc n)
  then obtain y where y: "(edit1 ^^ n) a y" "edit1 y b" by auto
  from Suc.IH[OF y(1)] edit1_rev[OF y(2)] show ?case by auto
qed

lemma edits_rev_iff: "(edit1 ^^ n) (rev a) (rev b) \<longleftrightarrow> (edit1 ^^ n) a b"
  using edits_rev[of n a b] edits_rev[of n "rev a" "rev b"] by auto

lemma editDistance_rev: "editDistance (rev a) (rev b) = editDistance a b"
  by (simp add: editDistance_def edits_rev_iff)

section \<open>fullStringDistance\<close>

lemma fullStringDistance_table:
  assumes "a \<noteq> []" "b \<noteq> []"
  shows "fullStringDistance a b = Some (lev (readBack a (length a)) (readBack b (length b)))"
proof -
  let ?n = "length a" and ?m = "length b"
  define D where "D i j = lev (readBack a i) (readBack b j)" for i j
  define body where "body = (\<lambda>x y (t :: nat jsarray jsarray).
      if charAt a (x - 1) = charAt b (y - 1)
      then do { d \<leftarrow> getCell t (x - 1) (y - 1); setCell t x y d }
      else do { u \<leftarrow> getCell t (x - 1) y; l \<leftarrow> getCell t x (y - 1);
                d \<leftarrow> getCell t (x - 1) (y - 1);
                setCell t x y (1 + min u (min l d)) })"
  have "\<exists>t1 t2. forLoop 0 ?n (\<lambda>x t. Some (t(x \<mapsto> [0 \<mapsto> x]))) Map.empty = Some t1 \<and>
           forLoop 0 ?m (\<lambda>y t. setCell t 0 y y) t1 = Some t2 \<and> tableHas D ?n ?m 1 1 t2"
    by (rule init_table[where c = "\<lambda>x. x" and d = "\<lambda>y. y"]) (simp_all add: D_def)
  then obtain t1 t2 where
    t1: "forLoop 0 ?n (\<lambda>x t. Some (t(x \<mapsto> [0 \<mapsto> x]))) Map.empty = Some t1" and
    t2: "forLoop 0 ?m (\<lambda>y t. setCell t 0 y y) t1 = Some t2" and
    inv: "tableHas D ?n ?m 1 1 t2" by blast
  have step: "body x y t = setCell t x y (D x y)"
    if x: "1 \<le> x" "x \<le> ?n" and y: "1 \<le> y" "y \<le> ?m" and h: "tableHas D ?n ?m x y t" for x y t
  proof -
    obtain x' y' where xy: "x = Suc x'" "y = Suc y'"
      using x(1) y(1) by (metis Suc_le_D One_nat_def)
    have d: "getCell t x' y' = Some (D x' y')"
      using tableHasD[OF h, of x' y'] x y xy by simp
    have u: "getCell t x' y = Some (D x' y)"
      using tableHasD[OF h, of x' y] x y xy by simp
    have l: "getCell t x y' = Some (D x y')"
      using tableHasD[OF h, of x y'] x y xy by simp
    show ?thesis
      using d u l by (simp add: body_def xy D_def)
  qed
  from fill_table[of ?n ?m D body, OF step inv] obtain t3 where
    t3: "forLoop 1 ?n (\<lambda>x t. forLoop 1 ?m (body x) t) t2 = Some t3" and
    fin: "tableHas D ?n ?m (Suc ?n) 1 t3" by blast
  have "getCell t3 ?n ?m = Some (D ?n ?m)"
    using tableHasD[OF fin, of ?n ?m] by simp
  then show ?thesis
    using assms t1 t2 t3 by (simp add: fullStringDistance_def Let_def body_def D_def)
qed

lemma fullStringDistance_lev: "fullStringDistance a b = Some (lev (rev a) (rev b))"
proof (cases "a = [] \<or> b = []")
  case True
  then show ?thesis by (auto simp: fullStringDistance_def Let_def)
next
  case False
  have "lev (rev (map Some a)) (rev (map Some b)) = lev (map Some (rev a)) (map Some (rev b))"
    by (simp add: rev_map)
  also have "\<dots> = lev (rev a) (rev b)"
    by (rule lev_map_inj) simp
  finally show ?thesis
    using False by (simp add: fullStringDistance_table readBack_length)
qed

text \<open>
  Claim C1. \<open>fullStringDistance a b\<close> returns the Levenshtein distance of \<open>a\<close> and \<open>b\<close>:
  the least number of single-character insertions, deletions and substitutions that turn
  \<open>a\<close> into \<open>b\<close>. When one of the strings is empty it returns the length of the other.
\<close>

theorem fullStringDistance_levenshtein:
  "fullStringDistance a b = Some (editDistance a b) \<and>
   fullStringDistance [] b = Some (length b) \<and>
   fullStringDistance a [] = Some (length a)"
proof -
  have "editDistance a b = lev (rev a) (rev b)"
    using editDistance_rev[of a b] by (simp add: editDistance_lev)
  then show ?thesis
    by (simp add: fullStringDistance_lev)
qed

theorem fullStringDistance_levenshtein_witness:
  "fullStringDistance ''kitten'' ''sitting'' = Some 3 \<and> editDistance ''kitten'' ''sitting'' = 3"
proof -
  have run: "fullStringDistance ''kitten'' ''sitting'' = Some 3"
    by (simp add: fullStringDistance_def charAt_def getCell_def setCell_def numeral_eq_Suc
          forLoop.simps)
  from fullStringDistance_levenshtein[of "''kitten''" "''sitting''"] show ?thesis
    unfolding run by simp
qed

section \<open>Rounding to a double\<close>

declare expoUp.simps [simp del] expoDown.simps [simp del]

lemma roundHalfEven_error: "\<bar>of_int (roundHalfEven t) - t\<bar> \<le> 1 / 2"
proof -
  have "of_int \<lfloor>t\<rfloor> \<le> t" "t < of_int \<lfloor>t\<rfloor> + 1" by linarith+
  then show ?thesis
    by (auto simp: roundHalfEven_def Let_def abs_le_iff)
qed

lemma roundHalfEven_nonneg: "0 \<le> t \<Longrightarrow> 0 \<le> roundHalfEven t"
  by (auto simp: roundHalfEven_def Let_def intro: order_trans[of 0 "\<lfloor>t\<rfloor>"])

lemma two_powi_Suc: "(2 :: rat) powi (k + 1) = 2 powi k * 2"
  by (simp add: power_int_add)

lemma two_powi_pred: "(2 :: rat) powi (k - 1) = 2 powi k / 2"
  by (simp add: power_int_diff)

lemma two_powi_pos: "0 < (2 :: rat) powi k"
  by (rule zero_less_power_int) simp

lemma expoUp_le: "1 \<le> x \<Longrightarrow> 2 powi (expoUp x k) \<le> x * 2 powi k"
proof (induction x k rule: expoUp.induct)
  case (1 x k)
  show ?case
  proof (cases "2 \<le> x")
    case True
    then have "2 powi (expoUp (x / 2) (k + 1)) \<le> x / 2 * 2 powi (k + 1)"
      using "1.IH" by simp
    then show ?thesis
      using True by (subst expoUp.simps) (simp add: two_powi_Suc)
  next
    case False
    have "1 * 2 powi k \<le> x * 2 powi k"
      using "1.prems" two_powi_pos[of k] by (intro mult_right_mono) simp_all
    then show ?thesis
      using False by (subst expoUp.simps) simp
  qed
qed

lemma expoDown_le: "0 < x \<Longrightarrow> 2 powi (expoDown x k) \<le> (if x < 1 then x else 1) * 2 powi k"
proof (induction x k rule: expoDown.induct)
  case (1 x k)
  show ?case
  proof (cases "x < 1")
    case True
    have "2 powi (expoDown (2 * x) (k - 1)) \<le> (if 2 * x < 1 then 2 * x else 1) * 2 powi (k - 1)"
      using "1.IH" "1.prems" True by simp
    also have "\<dots> \<le> 2 * x * 2 powi (k - 1)"
      using two_powi_pos[of "k - 1"] by (intro mult_right_mono) auto
    also have "\<dots> = x * 2 powi k"
      by (simp add: two_powi_pred)
    finally show ?thesis
      using True "1.prems" by (subst expoDown.simps) simp
  next
    case False
    then show ?thesis by (subst expoDown.simps) simp
  qed
qed

lemma expo_le: "0 < x \<Longrightarrow> 2 powi (expo x) \<le> x"
proof (cases "1 \<le> x")
  case True
  then show ?thesis using expoUp_le[of x 0] by (simp add: expo_def)
next
  case False
  assume "0 < x"
  with False show ?thesis using expoDown_le[of x 0] by (simp add: expo_def)
qed

lemma expo_upper:
  assumes "0 < x" "x < 2 powi (k + 1)"
  shows "expo x \<le> k"
proof (rule ccontr)
  assume "\<not> expo x \<le> k"
  then have "k + 1 \<le> expo x" by simp
  then have "(2 :: rat) powi (k + 1) \<le> 2 powi (expo x)"
    by (rule power_int_increasing) simp
  with expo_le[OF assms(1)] assms(2) show False by simp
qed

lemma roundDouble_error:
  assumes "0 < x"
  shows "\<bar>roundDouble x - x\<bar> \<le> 2 powi (max (expo x) (- 1022) - 52) / 2"
proof -
  define q :: rat where "q = 2 powi (max (expo x) (- 1022) - 52)"
  have q: "0 < q" unfolding q_def by (rule two_powi_pos)
  have r: "roundDouble x = of_int (roundHalfEven (x / q)) * q"
    using assms by (simp add: roundDouble_def Let_def q_def)
  have "roundDouble x - x = (of_int (roundHalfEven (x / q)) - x / q) * q"
    using q by (simp add: r field_simps)
  then have "\<bar>roundDouble x - x\<bar> = \<bar>of_int (roundHalfEven (x / q)) - x / q\<bar> * q"
    using q by (simp add: abs_mult)
  also have "\<dots> \<le> 1 / 2 * q"
    using q roundHalfEven_error[of "x / q"] by (intro mult_right_mono) simp_all
  finally show ?thesis by (simp add: q_def)
qed

lemma roundDouble_error_below:
  assumes "0 < x" "x < 2 powi (k + 1)" "- 1022 \<le> k"
  shows "\<bar>roundDouble x - x\<bar> \<le> 2 powi (k - 52) / 2"
proof -
  have "max (expo x) (- 1022) - 52 \<le> k - 52"
    using expo_upper[OF assms(1,2)] assms(3) by simp
  then have "(2 :: rat) powi (max (expo x) (- 1022) - 52) \<le> 2 powi (k - 52)"
    by (rule power_int_increasing) simp
  with roundDouble_error[OF assms(1)] show ?thesis by simp
qed

lemma roundDouble_nonneg: "0 \<le> x \<Longrightarrow> 0 \<le> roundDouble x"
proof (cases "x = 0")
  case True
  then show ?thesis by (simp add: roundDouble_def)
next
  case False
  assume "0 \<le> x"
  with False have x: "0 < x" by simp
  let ?q = "(2 :: rat) powi (max (expo \<bar>x\<bar>) (- 1022) - 52)"
  have "0 \<le> x / ?q" using x two_powi_pos[of "max (expo \<bar>x\<bar>) (- 1022) - 52"] by simp
  then have "0 \<le> roundHalfEven (x / ?q)" by (rule roundHalfEven_nonneg)
  then show ?thesis
    using x two_powi_pos[of "max (expo \<bar>x\<bar>) (- 1022) - 52"]
    by (simp add: roundDouble_def Let_def)
qed

lemma expoUp_less: "1 \<le> x \<Longrightarrow> x * 2 powi k < 2 powi (expoUp x k + 1)"
proof (induction x k rule: expoUp.induct)
  case (1 x k)
  show ?case
  proof (cases "2 \<le> x")
    case True
    then have "x / 2 * 2 powi (k + 1) < 2 powi (expoUp (x / 2) (k + 1) + 1)"
      using "1.IH" by simp
    then show ?thesis
      using True by (subst expoUp.simps) (simp add: two_powi_Suc)
  next
    case False
    have "x * 2 powi k < 2 * 2 powi k"
      using False two_powi_pos[of k] by (intro mult_strict_right_mono) simp_all
    then show ?thesis
      using False by (subst expoUp.simps) (simp add: two_powi_Suc)
  qed
qed

lemma expoDown_less: "0 < x \<Longrightarrow> x < 2 \<Longrightarrow> x * 2 powi k < 2 powi (expoDown x k + 1)"
proof (induction x k rule: expoDown.induct)
  case (1 x k)
  show ?case
  proof (cases "x < 1")
    case True
    have "2 * x * 2 powi (k - 1) < 2 powi (expoDown (2 * x) (k - 1) + 1)"
      using "1.IH" "1.prems" True by simp
    then show ?thesis
      using True "1.prems" by (subst expoDown.simps) (simp add: two_powi_pred)
  next
    case False
    have "x * 2 powi k < 2 * 2 powi k"
      using "1.prems" two_powi_pos[of k] by (intro mult_strict_right_mono) simp_all
    then show ?thesis
      using False by (subst expoDown.simps) (simp add: two_powi_Suc)
  qed
qed

text \<open>\<open>expo x\<close> is the binary exponent of \<open>x\<close>.\<close>

lemma expo_bounds: "0 < x \<Longrightarrow> 2 powi (expo x) \<le> x \<and> x < 2 powi (expo x + 1)"
proof (cases "1 \<le> x")
  case True
  then show ?thesis using expoUp_le[of x 0] expoUp_less[of x 0] by (simp add: expo_def)
next
  case False
  assume "0 < x"
  with False show ?thesis
    using expoDown_le[of x 0] expoDown_less[of x 0] by (simp add: expo_def)
qed

lemma expoUp_ge: "k \<le> expoUp x k"
proof (induction x k rule: expoUp.induct)
  case (1 x k)
  then show ?case by (subst expoUp.simps) (auto intro: order_trans[of k "k + 1"])
qed

lemma roundHalfEven_of_int [simp]: "roundHalfEven (of_int m) = m"
  by (simp add: roundHalfEven_def)

text \<open>Natural numbers below \<open>2^53\<close> are doubles: lengths and table cells need no rounding.\<close>

lemma roundDouble_of_nat:
  fixes n :: nat
  assumes "n < 2 ^ 53"
  shows "roundDouble (of_nat n) = of_nat n"
proof (cases "n = 0")
  case True
  then show ?thesis by (simp add: roundDouble_def)
next
  case False
  define x :: rat where "x = of_nat n"
  have x1: "1 \<le> x" using False by (simp add: x_def Suc_le_eq)
  have "n \<le> 9007199254740991" using assms by simp
  then have "(of_nat n :: rat) \<le> of_nat 9007199254740991" by (simp only: of_nat_le_iff)
  then have "x < 2 powi (52 + 1)" by (simp add: x_def)
  then have hi: "expo x \<le> 52" using x1 by (intro expo_upper) simp_all
  have lo: "0 \<le> expo x" using x1 expoUp_ge[of 0 x] by (simp add: expo_def)
  define k where "k = nat (52 - expo x)"
  have q: "(2 :: rat) powi (max (expo x) (- 1022) - 52) = 1 / 2 ^ k"
  proof -
    have "max (expo x) (- 1022) - 52 = - int k" using hi lo by (simp add: k_def)
    then show ?thesis by (simp add: power_int_minus_divide)
  qed
  have "x / (1 / 2 ^ k) = of_int (int n * 2 ^ k)" by (simp add: x_def)
  then have "roundHalfEven (x / (1 / 2 ^ k)) = int n * 2 ^ k"
    by (simp only: roundHalfEven_of_int)
  then have "roundDouble x = of_int (int n * 2 ^ k) * (1 / 2 ^ k)"
    using x1 by (simp add: roundDouble_def Let_def q)
  then show ?thesis by (simp add: x_def)
qed

lemma num1: "(1 :: rat) / 134217728 + 1 / 18014398509481984 < 1 / 134217727"
  by simp

lemma of_nat_below:
  fixes n :: nat
  assumes "n < 2 ^ 27"
  shows "(of_nat n :: rat) \<le> 134217727"
proof -
  have "n \<le> 134217727" using assms by simp
  then have "(of_nat n :: rat) \<le> of_nat 134217727" by (simp only: of_nat_le_iff)
  then show ?thesis by simp
qed

lemma quotient_error:
  fixes n :: nat
  assumes "2 \<le> n"
  shows "\<bar>roundDouble (1 / of_nat n) - 1 / of_nat n\<bar> \<le> 1 / 18014398509481984"
proof -
  have npos: "(0 :: rat) < 1 / of_nat n" using assms by simp
  have "(2 :: rat) \<le> of_nat n" using assms by (metis of_nat_le_iff of_nat_numeral)
  then have "(1 :: rat) / of_nat n \<le> 1 / 2"
    by (simp add: field_simps)
  then have lt: "(1 :: rat) / of_nat n < 2 powi (- 1 + 1)" by simp
  have "\<bar>roundDouble (1 / of_nat n) - 1 / of_nat n\<bar> \<le> 2 powi (- 1 - 52) / 2"
    by (rule roundDouble_error_below[OF npos lt]) simp
  also have "(2 :: rat) powi (- 1 - 52) / 2 = 1 / 18014398509481984"
    by (simp add: power_int_minus_divide)
  finally show ?thesis .
qed

lemma sum_error:
  fixes x :: rat
  assumes "0 < x" "x < 134217728"
  shows "\<bar>roundDouble x - x\<bar> \<le> 1 / 134217728"
proof -
  have lt: "x < 2 powi (26 + 1)" using assms(2) by simp
  have "\<bar>roundDouble x - x\<bar> \<le> 2 powi (26 - 52) / 2"
    by (rule roundDouble_error_below[OF assms(1) lt]) simp
  also have "(2 :: rat) powi (26 - 52) / 2 = 1 / 134217728"
    by (simp add: power_int_minus_divide)
  finally show ?thesis .
qed

lemma bonus_bounds:
  fixes b n :: nat
  assumes b: "1 \<le> b" "b \<le> n" and n: "2 \<le> n" "n < 2 ^ 27"
  shows "of_nat b < roundDouble (of_nat b + roundDouble (1 / of_nat n))"
    and "roundDouble (of_nat b + roundDouble (1 / of_nat n)) < of_nat b + 1"
    and "roundDouble (1 / of_nat n) < 1"
    and "\<bar>roundDouble (of_nat b + roundDouble (1 / of_nat n)) - (of_nat b + 1 / of_nat n)\<bar>
           \<le> 1 / 2 ^ 26"
proof -
  define y where "y = roundDouble (1 / of_nat n)"
  define s where "s = roundDouble (of_nat b + y)"
  define r :: rat where "r = 1 / of_nat n"
  define c :: rat where "c = of_nat b"
  have ey: "\<bar>y - r\<bar> \<le> 1 / 18014398509481984"
    unfolding y_def r_def by (rule quotient_error[OF n(1)])
  have nle: "(of_nat n :: rat) \<le> 134217727" by (rule of_nat_below[OF n(2)])
  have cle: "c \<le> 134217727"
    unfolding c_def using of_nat_below[of b] b(2) n(2) by simp
  have c1: "1 \<le> c" unfolding c_def using b(1) by simp
  have n2: "(2 :: rat) \<le> of_nat n" using n(1) by (metis of_nat_le_iff of_nat_numeral)
  have rhalf: "r \<le> 1 / 2" unfolding r_def using n2 by (simp add: field_simps)
  have "(1 :: rat) / 134217727 \<le> 1 / of_nat n"
    using nle n2 by (intro divide_left_mono) simp_all
  with num1 have big: "(1 :: rat) / 134217728 + 1 / 18014398509481984 < r"
    unfolding r_def by linarith
  have ylow: "1 / 134217728 < y" using ey big by linarith
  have yhigh: "y \<le> 1 / 2 + 1 / 18014398509481984" using ey rhalf by linarith
  have xpos: "0 < c + y" using ylow c1 by linarith
  have xlt: "c + y < 134217728" using yhigh cle by linarith
  have es: "\<bar>s - (c + y)\<bar> \<le> 1 / 134217728"
    unfolding s_def c_def[symmetric] by (rule sum_error[OF xpos xlt])
  have 1: "c < s" using es ylow by linarith
  have 2: "s < c + 1" using es yhigh by linarith
  have 3: "y < 1" using yhigh by linarith
  have 4: "\<bar>s - (c + r)\<bar> \<le> 1 / 67108864" using es ey by linarith
  show "of_nat b < roundDouble (of_nat b + roundDouble (1 / of_nat n))"
    using 1 by (simp add: s_def y_def c_def)
  show "roundDouble (of_nat b + roundDouble (1 / of_nat n)) < of_nat b + 1"
    using 2 by (simp add: s_def y_def c_def)
  show "roundDouble (1 / of_nat n) < 1"
    using 3 by (simp add: y_def)
  show "\<bar>roundDouble (of_nat b + roundDouble (1 / of_nat n)) - (of_nat b + 1 / of_nat n)\<bar>
           \<le> 1 / 2 ^ 26"
    using 4 by (simp add: s_def y_def c_def r_def)
qed

lemma roundDouble_1: "roundDouble 1 = 1"
  by code_simp

lemma roundDouble_2: "roundDouble 2 = 2"
  by code_simp

lemma roundDouble_bonus_lost: "roundDouble (134217728 + roundDouble (1 / 134217728)) = 134217728"
  by code_simp

section \<open>typeaheadSimilarity\<close>

lemma indexOfFrom_found: "indexOfFrom a b k \<noteq> - 1 \<longleftrightarrow> sublist b a"
proof (induction a arbitrary: k)
  case Nil
  show ?case by simp
next
  case (Cons c cs)
  show ?case using Cons.IH[of "Suc k"] by (auto simp: sublist_Cons_right)
qed

lemma indexOf_found: "indexOf a b \<noteq> - 1 \<longleftrightarrow> sublist b a"
  by (simp add: indexOf_def indexOfFrom_found)

lemma typeaheadSimilarity_contained:
  assumes "b \<noteq> []" "length b \<le> length a" "sublist b a"
  shows "typeaheadSimilarity a b =
           Some (roundDouble (of_nat (length b) + roundDouble (1 / of_nat (length a))))"
proof -
  have "a \<noteq> []" using assms by auto
  moreover have "indexOf a b \<noteq> - 1" using assms(3) by (simp add: indexOf_found)
  ultimately show ?thesis
    using assms(1,2) by (simp add: typeaheadSimilarity_def Let_def)
qed

lemma typeaheadSimilarity_table:
  assumes ne: "a \<noteq> []" "b \<noteq> []"
    and sw: "(a', b') = (if length a < length b then (b, a) else (a, b))"
    and nf: "\<not> sublist b' a'"
  shows "typeaheadSimilarity a b =
           Some (of_nat (lcs (readBack a' (length a)) (readBack b' (length b))))"
proof -
  let ?n = "length a" and ?m = "length b"
  define D where "D i j = lcs (readBack a' i) (readBack b' j)" for i j
  define body where "body = (\<lambda>x y (t :: nat jsarray jsarray).
      if charAt a' (x - 1) = charAt b' (y - 1)
      then do { d \<leftarrow> getCell t (x - 1) (y - 1); setCell t x y (1 + d) }
      else do { l \<leftarrow> getCell t x (y - 1); u \<leftarrow> getCell t (x - 1) y;
                setCell t x y (max l u) })"
  have D0: "D 0 j = 0" "D i 0 = 0" for i j
    by (simp_all add: D_def) (cases "readBack a' i"; simp)
  have "\<exists>t1 t2. forLoop 0 ?n (\<lambda>x t. Some (t(x \<mapsto> [0::nat \<mapsto> (0::nat)]))) Map.empty = Some t1 \<and>
           forLoop 0 ?m (\<lambda>y t. setCell t 0 y 0) t1 = Some t2 \<and> tableHas D ?n ?m 1 1 t2"
    by (rule init_table[where c = "\<lambda>x. 0" and d = "\<lambda>y. 0"]) (simp_all add: D0)
  then obtain t1 t2 where
    t1: "forLoop 0 ?n (\<lambda>x t. Some (t(x \<mapsto> [0::nat \<mapsto> (0::nat)]))) Map.empty = Some t1" and
    t2: "forLoop 0 ?m (\<lambda>y t. setCell t 0 y 0) t1 = Some t2" and
    inv: "tableHas D ?n ?m 1 1 t2" by blast
  have step: "body x y t = setCell t x y (D x y)"
    if x: "1 \<le> x" "x \<le> ?n" and y: "1 \<le> y" "y \<le> ?m" and h: "tableHas D ?n ?m x y t" for x y t
  proof -
    obtain x' y' where xy: "x = Suc x'" "y = Suc y'"
      using x(1) y(1) by (metis Suc_le_D One_nat_def)
    have d: "getCell t x' y' = Some (D x' y')"
      using tableHasD[OF h, of x' y'] x y xy by simp
    have u: "getCell t x' y = Some (D x' y)"
      using tableHasD[OF h, of x' y] x y xy by simp
    have l: "getCell t x y' = Some (D x y')"
      using tableHasD[OF h, of x y'] x y xy by simp
    show ?thesis
      using d u l by (simp add: body_def xy D_def)
  qed
  from fill_table[of ?n ?m D body, OF step inv] obtain t3 where
    t3: "forLoop 1 ?n (\<lambda>x t. forLoop 1 ?m (body x) t) t2 = Some t3" and
    fin: "tableHas D ?n ?m (Suc ?n) 1 t3" by blast
  have cell: "getCell t3 ?n ?m = Some (D ?n ?m)"
    using tableHasD[OF fin, of ?n ?m] by simp
  have idx: "indexOf a' b' = - 1" using nf indexOf_found[of a' b'] by simp
  show ?thesis
  proof (cases "length a < length b")
    case True
    with sw have "a' = b" "b' = a" by simp_all
    with idx True ne t1 t2 t3 cell show ?thesis
      by (simp add: typeaheadSimilarity_def Let_def body_def D_def)
  next
    case False
    with sw have "a' = a" "b' = b" by simp_all
    with idx False ne t1 t2 t3 cell show ?thesis
      by (simp add: typeaheadSimilarity_def Let_def body_def D_def)
  qed
qed

lemma typeaheadSimilarity_returns: "\<exists>r. typeaheadSimilarity a b = Some r \<and> 0 \<le> r"
proof (cases "a = [] \<or> b = []")
  case True
  then show ?thesis by (auto simp: typeaheadSimilarity_def Let_def)
next
  case False
  obtain a' b' where sw: "(a', b') = (if length a < length b then (b, a) else (a, b))"
    by (metis surj_pair)
  show ?thesis
  proof (cases "sublist b' a'")
    case True
    then have "indexOf a' b' \<noteq> - 1" by (simp add: indexOf_found)
    moreover have "0 \<le> roundDouble (of_nat m + roundDouble (1 / of_nat n))" for m n :: nat
      by (intro roundDouble_nonneg add_nonneg_nonneg) simp_all
    ultimately show ?thesis using False sw
      by (auto simp: typeaheadSimilarity_def Let_def split: if_splits)
  next
    case nf: False
    from typeaheadSimilarity_table[OF _ _ sw nf] False show ?thesis by simp
  qed
qed

lemma typeaheadSimilarity_lcs:
  assumes "b \<noteq> []" "length b \<le> length a" "\<not> sublist b a"
  shows "typeaheadSimilarity a b = Some (of_nat (lcs (rev a) (rev b)))"
proof -
  have a: "a \<noteq> []" using assms by auto
  have "lcs (rev (map Some a)) (rev (map Some b)) = lcs (map Some (rev a)) (map Some (rev b))"
    by (simp add: rev_map)
  also have "\<dots> = lcs (rev a) (rev b)"
    by (rule lcs_map_inj) simp
  finally show ?thesis
    using typeaheadSimilarity_table[OF a assms(1), of a b] assms(2,3)
    by (simp add: readBack_length)
qed

lemma typeaheadSimilarity_contained_swapped:
  assumes "a \<noteq> []" "length a < length b" "sublist a b"
  shows "typeaheadSimilarity a b =
           Some (roundDouble (of_nat (length b) + roundDouble (1 / of_nat (length a))))"
proof -
  have "b \<noteq> []" using assms by auto
  moreover have "indexOf b a \<noteq> - 1" using assms(3) by (simp add: indexOf_found)
  ultimately show ?thesis
    using assms(1,2) by (simp add: typeaheadSimilarity_def Let_def)
qed

lemma lcs_Nil2 [simp]: "lcs xs [] = 0"
  by (cases xs) auto

lemma lcs_commute: "lcs xs ys = lcs ys xs"
  by (induction xs ys rule: lcs.induct) (auto simp: max.commute)

lemma sublist_same_length: "sublist b a \<Longrightarrow> length a = length b \<Longrightarrow> a = b"
  by (auto simp: sublist_def)

text \<open>
  For two strings of the same length no swap takes place in either order, and the score
  does not depend on the order of the arguments.
\<close>

lemma typeaheadSimilarity_same_length:
  assumes "length a = length b"
  shows "typeaheadSimilarity a b = typeaheadSimilarity b a"
proof (cases "a = []")
  case True
  with assms show ?thesis by (simp add: typeaheadSimilarity_def)
next
  case False
  with assms have b: "b \<noteq> []" by auto
  show ?thesis
  proof (cases "a = b")
    case True
    then show ?thesis by simp
  next
    case ne: False
    have "\<not> sublist b a" "\<not> sublist a b"
      using ne assms sublist_same_length[of b a] sublist_same_length[of a b] by auto
    with typeaheadSimilarity_lcs[of b a] typeaheadSimilarity_lcs[of a b] False b assms
    show ?thesis by (simp add: lcs_commute)
  qed
qed

text \<open>
  Claim C2, for arguments that are not swapped (\<open>a\<close> at least as long as \<open>b\<close>) and
  shorter than \<open>2^27\<close> code units. When the non-empty \<open>b\<close> occurs in \<open>a\<close> as a contiguous
  run, the score is the double \<open>bLength + 1 / aLength\<close>, quotient and sum each rounded,
  within \<open>2^-26\<close> of the exact value. It is strictly above \<open>bLength\<close> and at most
  \<open>bLength + 1\<close>. The added term is at most 1; it is below 1, and the score below
  \<open>bLength + 1\<close>, exactly when \<open>a\<close> has two characters or more.
\<close>

theorem typeaheadSimilarity_substring_bonus:
  assumes "a \<noteq> []" "b \<noteq> []" "length b \<le> length a" "sublist b a" "length a < 2 ^ 27"
  shows "\<exists>score.
           typeaheadSimilarity a b = Some score \<and>
           score = roundDouble (of_nat (length b) + roundDouble (1 / of_nat (length a))) \<and>
           \<bar>score - (of_nat (length b) + 1 / of_nat (length a))\<bar> \<le> 1 / 2 ^ 26 \<and>
           of_nat (length b) < score \<and>
           score \<le> of_nat (length b) + 1 \<and>
           roundDouble (1 / of_nat (length a)) \<le> 1 \<and>
           (roundDouble (1 / of_nat (length a)) < 1 \<longleftrightarrow> 2 \<le> length a) \<and>
           (score < of_nat (length b) + 1 \<longleftrightarrow> 2 \<le> length a)"
proof -
  let ?score = "roundDouble (of_nat (length b) + roundDouble (1 / of_nat (length a)))"
  have run: "typeaheadSimilarity a b = Some ?score"
    by (rule typeaheadSimilarity_contained[OF assms(2,3,4)])
  have b1: "1 \<le> length b" using assms(2) by (simp add: Suc_le_eq)
  show ?thesis
  proof (cases "2 \<le> length a")
    case True
    from bonus_bounds[OF b1 assms(3) True assms(5)] run True show ?thesis
      by simp
  next
    case False
    moreover have "length a \<noteq> 0" using assms(1) by simp
    ultimately have a1: "length a = 1" by arith
    with b1 assms(3) have "length b = 1" by simp
    with a1 run show ?thesis
      by (simp add: roundDouble_1 roundDouble_2)
  qed
qed

theorem typeaheadSimilarity_substring_bonus_witness:
  "\<exists>score.
      typeaheadSimilarity (ascii ''WALLENBERG HIGH'') (ascii ''WALLENBERG'') = Some score \<and>
      \<bar>score - (10 + 1 / 15)\<bar> \<le> 1 / 2 ^ 26 \<and> 10 < score \<and> score < 11"
proof -
  have s: "sublist (ascii ''WALLENBERG'') (ascii ''WALLENBERG HIGH'')"
    by (simp add: ascii_def sublist_Cons_right)
  have l: "length (ascii ''WALLENBERG'') = 10" "length (ascii ''WALLENBERG HIGH'') = 15"
    by (simp_all add: ascii_def)
  from typeaheadSimilarity_substring_bonus[OF _ _ _ s] l
  obtain score where
    "typeaheadSimilarity (ascii ''WALLENBERG HIGH'') (ascii ''WALLENBERG'') = Some score"
    "\<bar>score - (10 + 1 / 15)\<bar> \<le> 1 / 2 ^ 26" "10 < score" "score < 11"
    by (auto simp: ascii_def)
  then show ?thesis by blast
qed

text \<open>
  C2 as stated does not hold at two places. For a single character matched against itself
  the term \<open>1 / aLength\<close> is 1 and the score is \<open>bLength + 1\<close>. For a string of \<open>2^27\<close>
  characters matched against itself the sum is rounded to \<open>bLength\<close>.
\<close>

lemma typeaheadSimilarity_bonus_lost:
  assumes "length a = 2 ^ 27"
  shows "typeaheadSimilarity a a = Some (of_nat (length a))"
proof -
  have ne: "a \<noteq> []" using assms by auto
  have "typeaheadSimilarity a a =
          Some (roundDouble (of_nat (length a) + roundDouble (1 / of_nat (length a))))"
    by (rule typeaheadSimilarity_contained[OF ne]) simp_all
  then show ?thesis
    by (simp add: assms roundDouble_bonus_lost)
qed

theorem typeaheadSimilarity_bonus_edges:
  "typeaheadSimilarity (ascii ''A'') (ascii ''A'') = Some (of_nat (length (ascii ''A'')) + 1) \<and>
   sublist (ascii ''A'') (ascii ''A'') \<and>
   typeaheadSimilarity (replicate (2 ^ 27) (65 :: nat)) (replicate (2 ^ 27) 65)
     = Some (of_nat (length (replicate (2 ^ 27) (65 :: nat)))) \<and>
   sublist (replicate (2 ^ 27) (65 :: nat)) (replicate (2 ^ 27) 65)"
proof -
  have "typeaheadSimilarity (ascii ''A'') (ascii ''A'') = Some (of_nat (length (ascii ''A'')) + 1)"
    using typeaheadSimilarity_contained[of "ascii ''A''" "ascii ''A''"]
    by (simp add: ascii_def roundDouble_1 roundDouble_2)
  moreover have "typeaheadSimilarity (replicate (2 ^ 27) (65 :: nat)) (replicate (2 ^ 27) 65)
     = Some (of_nat (length (replicate (2 ^ 27) (65 :: nat))))"
    by (rule typeaheadSimilarity_bonus_lost) (rule length_replicate)
  ultimately show ?thesis by (simp only: sublist_order.order.refl simp_thms)
qed

text \<open>
  Claim C8 says that the score does not depend on the order of the arguments when neither
  string contains the other. The program gives 1 for \<open>AB\<close> against \<open>XAYB\<close> and 2 for
  \<open>XAYB\<close> against \<open>AB\<close>: after the swap the table is still filled over \<open>aLength\<close> rows
  and \<open>bLength\<close> columns, the lengths of the arguments before the swap.
\<close>

theorem typeaheadSimilarity_swap_asymmetric:
  "typeaheadSimilarity (ascii ''AB'') (ascii ''XAYB'') = Some 1 \<and>
   typeaheadSimilarity (ascii ''XAYB'') (ascii ''AB'') = Some 2 \<and>
   \<not> sublist (ascii ''AB'') (ascii ''XAYB'') \<and> \<not> sublist (ascii ''XAYB'') (ascii ''AB'')"
  by (simp add: typeaheadSimilarity_def indexOf_def charAt_def getCell_def setCell_def
        ascii_def numeral_eq_Suc forLoop.simps sublist_Cons_right)

section \<open>cleanUpText\<close>

lemma upperLatin1_units:
  "c < 256 \<Longrightarrow> u \<in> set (upperLatin1 c) \<Longrightarrow>
     \<not> (97 \<le> u \<and> u \<le> 122) \<and> (224 \<le> u \<and> u \<le> 252 \<longrightarrow> u = 247)"
  by (auto simp: upperLatin1_def split: if_splits)

lemma upperHighOkD:
  "upperHighOk hi \<Longrightarrow> \<forall>v \<in> set r. 256 \<le> v \<Longrightarrow> u \<in> set (hi r) \<Longrightarrow>
     \<not> (97 \<le> u \<and> u \<le> 122) \<and> \<not> (224 \<le> u \<and> u \<le> 252)"
  unfolding upperHighOk_def by (elim allE[of _ r] impE) simp_all

lemma toUpperCase_units:
  "upperHighOk hi \<Longrightarrow> u \<in> set (toUpperCase hi s) \<Longrightarrow>
     \<not> (97 \<le> u \<and> u \<le> 122) \<and> (224 \<le> u \<and> u \<le> 252 \<longrightarrow> u = 247)"
proof (induction hi s rule: toUpperCase.induct)
  case (1 hi)
  then show ?case by simp
next
  case (2 hi c cs)
  note ok = \<open>upperHighOk hi\<close> and mem = \<open>u \<in> set (toUpperCase hi (c # cs))\<close>
  show ?case
  proof (cases "c < 256")
    case True
    from mem True have "u \<in> set (upperLatin1 c) \<or> u \<in> set (toUpperCase hi cs)"
      by simp
    then show ?thesis
    proof
      assume "u \<in> set (upperLatin1 c)"
      with True show ?thesis by (rule upperLatin1_units)
    next
      assume "u \<in> set (toUpperCase hi cs)"
      with ok show ?thesis by (rule "2.IH"(1)[OF True])
    qed
  next
    case False
    let ?run = "c # takeWhile (\<lambda>u. 256 \<le> u) cs"
    have run: "\<forall>v \<in> set ?run. 256 \<le> v"
      using False by (auto dest: set_takeWhileD)
    from mem False
    have "u \<in> set (hi ?run) \<or> u \<in> set (toUpperCase hi (dropWhile (\<lambda>u. 256 \<le> u) cs))"
      by simp
    then show ?thesis
    proof
      assume h: "u \<in> set (hi ?run)"
      from upperHighOkD[OF ok run h] show ?thesis by auto
    next
      assume "u \<in> set (toUpperCase hi (dropWhile (\<lambda>u. 256 \<le> u) cs))"
      with ok show ?thesis by (rule "2.IH"(2)[OF False])
    qed
  qed
qed

lemma stripNonAlnum_units:
  "u \<in> set (stripNonAlnum s) \<Longrightarrow>
     u \<in> set s \<and> ((48 \<le> u \<and> u \<le> 57) \<or> (65 \<le> u \<and> u \<le> 90) \<or> (97 \<le> u \<and> u \<le> 122) \<or>
                    (224 \<le> u \<and> u \<le> 252))"
  by (auto simp: stripNonAlnum_def stripMatch_def isWordChar_def)

lemma cleanUpText_plain:
  "cleanUpText js (Some s) None = Inr (if s = [] then [] else stripNonAlnum (toUpperCase (upperHigh js) s))"
  by (simp add: cleanUpText_def)

lemma cleaned_units:
  assumes "upperHighOk hi" "u \<in> set (stripNonAlnum (toUpperCase hi s))"
  shows "(48 \<le> u \<and> u \<le> 57) \<or> (65 \<le> u \<and> u \<le> 90) \<or> u = 247"
  using stripNonAlnum_units[OF assms(2)] toUpperCase_units[OF assms(1), of u s] by auto

lemma toUpperCase_fixed:
  "\<forall>u \<in> set r. (48 \<le> u \<and> u \<le> 57) \<or> (65 \<le> u \<and> u \<le> 90) \<or> u = 247 \<Longrightarrow> toUpperCase hi r = r"
  by (induction r) (auto simp: upperLatin1_def)

lemma stripNonAlnum_fixed:
  "\<forall>u \<in> set r. (48 \<le> u \<and> u \<le> 57) \<or> (65 \<le> u \<and> u \<le> 90) \<or> u = 247 \<Longrightarrow> stripNonAlnum r = r"
  unfolding stripNonAlnum_def
  by (rule filter_True) (auto simp: stripMatch_def isWordChar_def)

lemma toUpperCase_latin1:
  "\<forall>u \<in> set s. u < 256 \<Longrightarrow> toUpperCase hi s = concat (map upperLatin1 s)"
  by (induction s) auto

text \<open>For a text of code units below U+0100 the engine does not matter.\<close>

lemma cleanUpText_alphabet_latin1:
  assumes "\<forall>u \<in> set s. u < 256" "v \<in> set (stripNonAlnum (toUpperCase hi s))"
  shows "(48 \<le> v \<and> v \<le> 57) \<or> (65 \<le> v \<and> v \<le> 90) \<or> v = 247"
proof -
  from stripNonAlnum_units[OF assms(2)] have "v \<in> set (concat (map upperLatin1 s))"
    by (simp add: toUpperCase_latin1[OF assms(1)])
  then obtain c where "c \<in> set s" "v \<in> set (upperLatin1 c)" by auto
  with assms(1) have "\<not> (97 \<le> v \<and> v \<le> 122) \<and> (224 \<le> v \<and> v \<le> 252 \<longrightarrow> v = 247)"
    using upperLatin1_units[of c v] by blast
  with stripNonAlnum_units[OF assms(2)] show ?thesis by auto
qed

lemma demoEngine_upperHighOk: "upperHighOk (upperHigh demoEngine)"
  by (auto simp: upperHighOk_def demoEngine_def split: if_splits)

text \<open>
  Claim C10. Without a substitution table, every code unit of the cleaned text is an ASCII
  digit, an ASCII upper-case letter or the division sign U+00F7, for every input, as long
  as the engine's upper-casing above U+00FF yields no lower-case ASCII letter and nothing
  in U+00E0..U+00FC (\<open>upperHighOk\<close>, which Unicode's table satisfies). No accented letter
  is left: the text is upper-cased first, and the upper-case accented letters lie outside
  the range that the pattern spares.
\<close>

theorem cleanUpText_alphabet:
  assumes "upperHighOk (upperHigh js)"
  shows "\<exists>r. cleanUpText js input None = Inr r \<and>
             (\<forall>u \<in> set r. (48 \<le> u \<and> u \<le> 57) \<or> (65 \<le> u \<and> u \<le> 90) \<or> u = 247)"
proof (cases input)
  case None
  then show ?thesis by (simp add: cleanUpText_def)
next
  case (Some s)
  then show ?thesis
    using cleaned_units[OF assms, of _ s] by (auto simp: cleanUpText_plain)
qed

theorem cleanUpText_alphabet_witness:
  "\<exists>r. cleanUpText demoEngine
          (Some (ascii ''Scoil Bhr'' @ [237] @ ascii ''de_'' @ [305, 247, 8364] @ ascii '' no. 9'')) None
        = Inr r \<and>
       r = ascii ''SCOILBHRDEI'' @ [247] @ ascii ''NO9'' \<and>
       list_all (\<lambda>u. (48 \<le> u \<and> u \<le> 57) \<or> (65 \<le> u \<and> u \<le> 90) \<or> u = 247) r"
proof -
  have run: "cleanUpText demoEngine
          (Some (ascii ''Scoil Bhr'' @ [237] @ ascii ''de_'' @ [305, 247, 8364] @ ascii '' no. 9'')) None
        = Inr (ascii ''SCOILBHRDEI'' @ [247] @ ascii ''NO9'')"
    by (simp add: cleanUpText_def ascii_def upperLatin1_def stripNonAlnum_def stripMatch_def
          isWordChar_def demoEngine_def)
  from cleanUpText_alphabet[OF demoEngine_upperHighOk,
      of "Some (ascii ''Scoil Bhr'' @ [237] @ ascii ''de_'' @ [305, 247, 8364] @ ascii '' no. 9'')"]
  show ?thesis unfolding run by (simp add: list_all_iff)
qed

text \<open>
  Claim C9. Without a substitution table, cleaning a cleaned text gives it back (under
  the same condition on the engine).
\<close>

theorem cleanUpText_idempotent:
  assumes "upperHighOk (upperHigh js)"
  shows "\<exists>r. cleanUpText js (Some s) None = Inr r \<and> cleanUpText js (Some r) None = Inr r"
proof -
  define r where "r = (if s = [] then [] else stripNonAlnum (toUpperCase (upperHigh js) s))"
  have first: "cleanUpText js (Some s) None = Inr r"
    by (simp add: cleanUpText_plain r_def)
  have units: "\<forall>u \<in> set r. (48 \<le> u \<and> u \<le> 57) \<or> (65 \<le> u \<and> u \<le> 90) \<or> u = 247"
    using cleaned_units[OF assms, of _ s] by (auto simp: r_def)
  have again: "stripNonAlnum (toUpperCase (upperHigh js) r) = r"
    by (simp only: toUpperCase_fixed[OF units] stripNonAlnum_fixed[OF units])
  have "cleanUpText js (Some r) None = Inr r"
    unfolding cleanUpText_plain again by simp
  with first show ?thesis by blast
qed

theorem cleanUpText_idempotent_witness:
  "\<exists>r. cleanUpText demoEngine (Some (ascii ''Stra'' @ [223] @ ascii ''e 7'' @ [247, 383])) None = Inr r \<and>
       r = ascii ''STRASSE7'' @ [247] @ ascii ''S'' \<and>
       cleanUpText demoEngine (Some r) None = Inr r"
proof -
  have run: "cleanUpText demoEngine (Some (ascii ''Stra'' @ [223] @ ascii ''e 7'' @ [247, 383])) None
               = Inr (ascii ''STRASSE7'' @ [247] @ ascii ''S'')"
    by (simp add: cleanUpText_def ascii_def upperLatin1_def stripNonAlnum_def stripMatch_def
          isWordChar_def demoEngine_def)
  from cleanUpText_idempotent[OF demoEngine_upperHighOk,
      of "ascii ''Stra'' @ [223] @ ascii ''e 7'' @ [247, 383]"]
  show ?thesis unfolding run by simp
qed

text \<open>
  Claim C4 expects \<open>SCOILBHRIDEPRIMARYSCHOOL\<close> for \<open>Scoil Bhr\<close>, U+00ED, \<open>de Primary School\<close>
  without a substitution table. The program returns \<open>SCOILBHRDEPRIMARYSCHOOL\<close>, on every
  engine: U+00ED is upper-cased to U+00CD, which the pattern strips, while U+00ED itself
  would have been spared.
\<close>

theorem cleanUpText_scoil_bhride:
  "cleanUpText js (Some (ascii ''Scoil Bhr'' @ [237] @ ascii ''de Primary School'')) None
     = Inr (ascii ''SCOILBHRDEPRIMARYSCHOOL'') \<and>
   cleanUpText js (Some (ascii ''Scoil Bhr'' @ [237] @ ascii ''de Primary School'')) None
     \<noteq> Inr (ascii ''SCOILBHRIDEPRIMARYSCHOOL'') \<and>
   toUpperCase (upperHigh js) [237] = [205] \<and> stripMatch 205 \<and> \<not> stripMatch 237"
  by (simp add: cleanUpText_def ascii_def upperLatin1_def stripNonAlnum_def stripMatch_def
        isWordChar_def)

section \<open>filterOptions: the pipeline\<close>

lemma mapE_Inr_all2: "mapE f xs = Inr ys \<Longrightarrow> list_all2 (\<lambda>x y. f x = Inr y) xs ys"
  by (induction xs arbitrary: ys) (auto split: sum.splits)

lemma all2_left: "list_all2 P xs ys \<Longrightarrow> x \<in> set xs \<Longrightarrow> \<exists>y \<in> set ys. P x y"
  by (induction rule: list_all2_induct) auto

lemma all2_right: "list_all2 P xs ys \<Longrightarrow> y \<in> set ys \<Longrightarrow> \<exists>x \<in> set xs. P x y"
  by (induction rule: list_all2_induct) auto

lemma mapE_returns: "(\<And>x. x \<in> set xs \<Longrightarrow> \<exists>y. f x = Inr y) \<Longrightarrow> \<exists>ys. mapE f xs = Inr ys"
proof (induction xs)
  case Nil
  then show ?case by simp
next
  case (Cons x xs)
  obtain y where y: "f x = Inr y" using Cons.prems[of x] by auto
  obtain ys where ys: "mapE f xs = Inr ys" using Cons by auto
  show ?case by (simp add: y ys)
qed

lemma set_insertBy: "set (insertBy cmp x xs) = insert x (set xs)"
  by (induction xs) auto

lemma set_sortBy: "set (sortBy cmp xs) = set xs"
  by (induction xs) (auto simp: set_insertBy)

lemma sorted_insertBy_key:
  "sorted_wrt (\<lambda>p q. k q \<le> k p) xs \<Longrightarrow>
   sorted_wrt (\<lambda>p q. k q \<le> k p) (insertBy (\<lambda>a b. k b - k a) x xs)"
  by (induction xs) (auto simp: set_insertBy)

lemma sorted_sortBy_key: "sorted_wrt (\<lambda>p q. k q \<le> (k p :: rat)) (sortBy (\<lambda>a b. k b - k a) xs)"
  by (induction xs) (auto simp: sorted_insertBy_key)

lemma scorePair_fst: "scorePair js subs cf opt = Inr p \<Longrightarrow> fst p = opt"
  by (auto simp: scorePair_def split: sum.splits option.splits)

lemma mapE_scorePair_pairs:
  "mapE (scorePair js subs cf) xs = Inr ps \<Longrightarrow> ps = map (\<lambda>opt. (opt, snd (projr (scorePair js subs cf opt)))) xs"
proof (induction xs arbitrary: ps)
  case Nil then show ?case by simp
next
  case (Cons x xs)
  then show ?case by (auto split: sum.splits dest: scorePair_fst simp: prod_eq_iff)
qed


lemma filterOptions_nonblank:
  assumes "f \<noteq> []"
  shows "filterOptions js opts (Some f) subs =
     (case cleanUpText js (Some f) subs of
        Inl e \<Rightarrow> Inl e
      | Inr cf \<Rightarrow>
          (case mapE (scorePair js subs cf)
                  (filter (\<lambda>option. label option \<noteq> None \<and> value option \<noteq> None) opts) of
             Inl e \<Rightarrow> Inl e
           | Inr pairs \<Rightarrow>
               Inr (map fst
                     (sortBy (\<lambda>a b. snd b - snd a)
                       (filter (\<lambda>pair. of_nat (length cf) - 2 \<le> snd pair) pairs)))))"
  using assms by (simp add: filterOptions_def)

lemma filterOptions_InrD:
  assumes "filterOptions js opts (Some f) subs = Inr res" "f \<noteq> []"
  obtains cf pairs where
    "cleanUpText js (Some f) subs = Inr cf"
    "mapE (scorePair js subs cf)
       (filter (\<lambda>option. label option \<noteq> None \<and> value option \<noteq> None) opts) = Inr pairs"
    "res = map fst (sortBy (\<lambda>a b. snd b - snd a)
                  (filter (\<lambda>pair. of_nat (length cf) - 2 \<le> snd pair) pairs))"
  using assms by (auto simp: filterOptions_nonblank split: sum.splits)

lemma typeaheadSimilarity_empty: "typeaheadSimilarity a [] = Some 0"
  by (simp add: typeaheadSimilarity_def)

lemma applySubstitutions_returns:
  "(\<And>p r s. regexReplace js p r s \<noteq> None) \<Longrightarrow> \<exists>out. applySubstitutions js subs s = Inr out"
proof (induction subs arbitrary: s)
  case Nil
  show ?case by simp
next
  case (Cons entry subs)
  obtain p r where entry: "entry = (p, r)" by (cases entry)
  from Cons.prems[of p r s] obtain s' where s': "regexReplace js p r s = Some s'" by auto
  from Cons.IH[OF Cons.prems, of s'] show ?case by (simp add: entry s')
qed

lemma cleanUpText_returns:
  assumes "subs \<noteq> None \<Longrightarrow> (\<And>p r s. regexReplace js p r s \<noteq> None)"
  shows "\<exists>r. cleanUpText js input subs = Inr r"
proof (cases subs)
  case None
  then show ?thesis by (simp add: cleanUpText_def split: option.splits)
next
  case (Some table)
  then show ?thesis
    using applySubstitutions_returns[of js table] assms
    by (simp add: cleanUpText_def Let_def split: option.splits)
qed

lemma scorePair_returns:
  assumes "subs \<noteq> None \<Longrightarrow> (\<And>p r s. regexReplace js p r s \<noteq> None)"
  shows "\<exists>p. scorePair js subs cf opt = Inr p"
proof -
  from cleanUpText_returns[where input = "label opt", OF assms] obtain cl where
    cl: "cleanUpText js (label opt) subs = Inr cl" by blast
  from typeaheadSimilarity_returns[of cl cf] obtain sc where
    sc: "typeaheadSimilarity cl cf = Some sc" by blast
  show ?thesis by (simp add: scorePair_def cl sc)
qed

text \<open>
  The pipeline returns a list whenever no pattern of the substitution table is rejected;
  without a table it always does.
\<close>

lemma filterOptions_returns:
  assumes "subs \<noteq> None \<Longrightarrow> (\<And>p r s. regexReplace js p r s \<noteq> None)"
  shows "\<exists>res. filterOptions js opts flt subs = Inr res"
proof (cases "flt = None \<or> flt = Some []")
  case True
  then show ?thesis by (auto simp: filterOptions_def)
next
  case False
  then obtain f where f: "flt = Some f" "f \<noteq> []" by auto
  from cleanUpText_returns[where input = "Some f", OF assms] obtain cf where
    cf: "cleanUpText js (Some f) subs = Inr cf" by blast
  from mapE_returns[of _ "scorePair js subs cf"] scorePair_returns[where cf = cf, OF assms]
  obtain pairs where
    "mapE (scorePair js subs cf)
       (filter (\<lambda>option. label option \<noteq> None \<and> value option \<noteq> None) opts) = Inr pairs"
    by blast
  then show ?thesis using f cf by (simp add: filterOptions_nonblank)
qed

text \<open>
  Claim C3. With a non-blank filter, an option of the input that has a label and a value
  is in the result exactly when the similarity of its cleaned label and the cleaned filter
  is at least the length of the cleaned filter minus 2. The threshold is not clamped: when
  the cleaned filter is empty the score is 0, the threshold is \<open>-2\<close>, and the option is
  in the result.
\<close>

theorem filterOptions_threshold:
  assumes res: "filterOptions js opts (Some f) subs = Inr res"
    and f: "f \<noteq> []"
    and opt: "opt \<in> set opts" "label opt = Some l" "value opt = Some v"
  shows "\<exists>cleanFilter cleanLabel sc.
           cleanUpText js (Some f) subs = Inr cleanFilter \<and>
           cleanUpText js (Some l) subs = Inr cleanLabel \<and>
           typeaheadSimilarity cleanLabel cleanFilter = Some sc \<and>
           (opt \<in> set res \<longleftrightarrow> of_nat (length cleanFilter) - 2 \<le> sc) \<and>
           (cleanFilter = [] \<longrightarrow> sc = 0 \<and> opt \<in> set res)"
proof -
  let ?valid = "filter (\<lambda>option. label option \<noteq> None \<and> value option \<noteq> None) opts"
  from res f obtain cf pairs where
    cf: "cleanUpText js (Some f) subs = Inr cf" and
    pairs: "mapE (scorePair js subs cf) ?valid = Inr pairs" and
    r: "res = map fst (sortBy (\<lambda>a b. snd b - snd a)
                  (filter (\<lambda>pair. of_nat (length cf) - 2 \<le> snd pair) pairs))"
    by (rule filterOptions_InrD)
  have valid: "opt \<in> set ?valid" using opt by simp
  have all2: "list_all2 (\<lambda>x y. scorePair js subs cf x = Inr y) ?valid pairs"
    using pairs by (rule mapE_Inr_all2)
  from all2_left[OF all2 valid] obtain p where
    p: "p \<in> set pairs" "scorePair js subs cf opt = Inr p"
    by blast
  from p(2) opt(2) obtain cl sc where
    cl: "cleanUpText js (Some l) subs = Inr cl" and
    sc: "typeaheadSimilarity cl cf = Some sc" and
    peq: "p = (opt, sc)"
    by (auto simp: scorePair_def split: sum.splits option.splits)
  have unique: "q = (opt, sc)" if "q \<in> set pairs" "fst q = opt" for q
  proof -
    from all2_right[OF all2 that(1)] obtain x where x: "scorePair js subs cf x = Inr q"
      by blast
    then have "fst q = x" by (rule scorePair_fst)
    with x that(2) p(2) peq show ?thesis by simp
  qed
  have mem: "opt \<in> set res \<longleftrightarrow> of_nat (length cf) - 2 \<le> sc"
  proof
    assume "opt \<in> set res"
    then obtain q where q: "q \<in> set pairs" "of_nat (length cf) - 2 \<le> snd q" "fst q = opt"
      by (auto simp: r set_sortBy)
    with unique[of q] show "of_nat (length cf) - 2 \<le> sc" by simp
  next
    assume "of_nat (length cf) - 2 \<le> sc"
    with p(1) peq have "(opt, sc) \<in> set (filter (\<lambda>pair. of_nat (length cf) - 2 \<le> snd pair) pairs)"
      by simp
    then show "opt \<in> set res"
      by (force simp: r set_sortBy)
  qed
  have empty: "sc = 0 \<and> opt \<in> set res" if "cf = []"
  proof -
    have "sc = 0" using sc that by (simp add: typeaheadSimilarity_empty)
    then show ?thesis using mem that by simp
  qed
  show ?thesis using cf cl sc mem empty by blast
qed

text \<open>
  Claim C5. With a blank filter (the empty string, or none at all) the options come back
  as they were given: nothing is cleaned, reordered or dropped, whatever the labels and
  values are.
\<close>

theorem filterOptions_blank_identity:
  "filterOptions js opts (Some []) subs = Inr opts \<and> filterOptions js opts None subs = Inr opts"
  by (simp add: filterOptions_def)

text \<open>
  Claim C6, for a non-blank filter: every option of the result is an option of the input
  that has both a label and a value.
\<close>

theorem filterOptions_drops_missing:
  assumes "filterOptions js opts (Some f) subs = Inr res" "f \<noteq> []"
  shows "\<forall>opt \<in> set res. opt \<in> set opts \<and> label opt \<noteq> None \<and> value opt \<noteq> None"
proof -
  let ?valid = "filter (\<lambda>option. label option \<noteq> None \<and> value option \<noteq> None) opts"
  from assms obtain cf pairs where
    pairs: "mapE (scorePair js subs cf) ?valid = Inr pairs" and
    r: "res = map fst (sortBy (\<lambda>a b. snd b - snd a)
                  (filter (\<lambda>pair. of_nat (length cf) - 2 \<le> snd pair) pairs))"
    by (rule filterOptions_InrD)
  have all2: "list_all2 (\<lambda>x y. scorePair js subs cf x = Inr y) ?valid pairs"
    using pairs by (rule mapE_Inr_all2)
  have "fst q \<in> set ?valid" if "q \<in> set pairs" for q
  proof -
    from all2_right[OF all2 that] obtain x where
      x: "x \<in> set ?valid" "scorePair js subs cf x = Inr q"
      by blast
    from x(2) have "fst q = x" by (rule scorePair_fst)
    with x(1) show ?thesis by simp
  qed
  then show ?thesis by (auto simp: r set_sortBy)
qed

text \<open>
  Claim C7. With a non-blank filter, the options of the result, each paired with its score
  (the similarity of its cleaned label and the cleaned filter), are in non-increasing order
  of score.
\<close>

theorem filterOptions_sorted:
  assumes "filterOptions js opts (Some f) subs = Inr res" "f \<noteq> []"
  shows "\<exists>cleanFilter scored.
           cleanUpText js (Some f) subs = Inr cleanFilter \<and>
           map (scorePair js subs cleanFilter) res = map Inr scored \<and>
           map fst scored = res \<and>
           sorted_wrt (\<lambda>p q. snd q \<le> snd p) scored"
proof -
  let ?valid = "filter (\<lambda>option. label option \<noteq> None \<and> value option \<noteq> None) opts"
  from assms obtain cf pairs where
    cf: "cleanUpText js (Some f) subs = Inr cf" and
    pairs: "mapE (scorePair js subs cf) ?valid = Inr pairs" and
    r: "res = map fst (sortBy (\<lambda>a b. snd b - snd a)
                  (filter (\<lambda>pair. of_nat (length cf) - 2 \<le> snd pair) pairs))"
    by (rule filterOptions_InrD)
  let ?scored = "sortBy (\<lambda>a b. snd b - snd a)
                  (filter (\<lambda>pair. of_nat (length cf) - 2 \<le> snd pair) pairs)"
  have all2: "list_all2 (\<lambda>x y. scorePair js subs cf x = Inr y) ?valid pairs"
    using pairs by (rule mapE_Inr_all2)
  have each: "scorePair js subs cf (fst q) = Inr q" if "q \<in> set ?scored" for q
  proof -
    from that have "q \<in> set pairs" by (simp add: set_sortBy)
    from all2_right[OF all2 this] obtain x where x: "scorePair js subs cf x = Inr q"
      by blast
    then have "fst q = x" by (rule scorePair_fst)
    with x show ?thesis by simp
  qed
  have "map (scorePair js subs cf) res = map Inr ?scored"
    unfolding r by (simp add: each)
  moreover have "sorted_wrt (\<lambda>p q. snd q \<le> snd p) ?scored"
    by (rule sorted_sortBy_key)
  ultimately show ?thesis using cf r by blast
qed

section \<open>Concrete runs\<close>

lemmas evalDefs = filterOptions_def scorePair_def cleanUpText_def typeaheadSimilarity_def
  indexOf_def charAt_def getCell_def setCell_def ascii_def upperLatin1_def stripNonAlnum_def
  stripMatch_def isWordChar_def demoEngine_def numeral_eq_Suc forLoop.simps

lemma demo_run1:
  "filterOptions demoEngine
     [\<lparr>label = Some (ascii ''F00''), value = Some (1::nat)\<rparr>,
      \<lparr>label = None, value = Some 2\<rparr>,
      \<lparr>label = Some (ascii ''Bar''), value = Some 3\<rparr>]
     (Some (ascii ''foo'')) (Some [(ascii ''0'', ascii ''O'')])
   = Inr [\<lparr>label = Some (ascii ''F00''), value = Some 1\<rparr>]"
  by code_simp

lemma demo_run2:
  "filterOptions demoEngine
     [\<lparr>label = Some (ascii ''xyz''), value = Some (1::nat)\<rparr>,
      \<lparr>label = Some (ascii ''cab''), value = Some 2\<rparr>,
      \<lparr>label = Some (ascii ''ab''), value = None\<rparr>,
      \<lparr>label = Some (ascii ''ab''), value = Some 3\<rparr>]
     (Some (ascii ''a_b'')) None
   = Inr [\<lparr>label = Some (ascii ''ab''), value = Some 3\<rparr>,
          \<lparr>label = Some (ascii ''cab''), value = Some 2\<rparr>,
          \<lparr>label = Some (ascii ''xyz''), value = Some 1\<rparr>]"
  by code_simp

text \<open>Concrete runs of the pipeline on the sample engine.\<close>

theorem filterOptions_threshold_witness:
  "\<exists>cleanFilter cleanLabel sc.
      cleanUpText demoEngine (Some (ascii ''foo'')) (Some [(ascii ''0'', ascii ''O'')]) = Inr cleanFilter \<and>
      cleanUpText demoEngine (Some (ascii ''F00'')) (Some [(ascii ''0'', ascii ''O'')]) = Inr cleanLabel \<and>
      typeaheadSimilarity cleanLabel cleanFilter = Some sc \<and>
      (\<lparr>label = Some (ascii ''F00''), value = Some (1::nat)\<rparr>
         \<in> set [\<lparr>label = Some (ascii ''F00''), value = Some 1\<rparr>]
       \<longleftrightarrow> of_nat (length cleanFilter) - 2 \<le> sc) \<and>
      (cleanFilter = [] \<longrightarrow>
         sc = 0 \<and> \<lparr>label = Some (ascii ''F00''), value = Some (1::nat)\<rparr>
           \<in> set [\<lparr>label = Some (ascii ''F00''), value = Some 1\<rparr>])"
  by (rule filterOptions_threshold[OF demo_run1]) (simp_all add: ascii_def)

theorem filterOptions_sorted_witness:
  "\<exists>cleanFilter scored.
      cleanUpText demoEngine (Some (ascii ''a_b'')) None = Inr cleanFilter \<and>
      map (scorePair demoEngine None cleanFilter)
        [\<lparr>label = Some (ascii ''ab''), value = Some (3::nat)\<rparr>,
         \<lparr>label = Some (ascii ''cab''), value = Some 2\<rparr>,
         \<lparr>label = Some (ascii ''xyz''), value = Some 1\<rparr>] = map Inr scored \<and>
      map fst scored =
        [\<lparr>label = Some (ascii ''ab''), value = Some 3\<rparr>,
         \<lparr>label = Some (ascii ''cab''), value = Some 2\<rparr>,
         \<lparr>label = Some (ascii ''xyz''), value = Some 1\<rparr>] \<and>
      sorted_wrt (\<lambda>p q. snd q \<le> snd p) scored"
  by (rule filterOptions_sorted[OF demo_run2]) (simp add: ascii_def)

theorem filterOptions_drops_missing_witness:
  "label \<lparr>label = Some (ascii ''F00''), value = Some (1::nat)\<rparr> \<noteq> None \<and>
   value \<lparr>label = Some (ascii ''F00''), value = Some (1::nat)\<rparr> \<noteq> None \<and>
   \<lparr>label = Some (ascii ''F00''), value = Some (1::nat)\<rparr>
     \<in> set [\<lparr>label = Some (ascii ''F00''), value = Some (1::nat)\<rparr>,
              \<lparr>label = None, value = Some 2\<rparr>,
              \<lparr>label = Some (ascii ''Bar''), value = Some 3\<rparr>]"
  using filterOptions_drops_missing[OF demo_run1] by (simp add: ascii_def)

text \<open>
  With a blank filter an option without a label is returned: C6 does not hold for the
  empty filter string.
\<close>

theorem filterOptions_blank_keeps_missing:
  "filterOptions demoEngine [\<lparr>label = None, value = Some (2::nat)\<rparr>] (Some []) None
     = Inr [\<lparr>label = None, value = Some 2\<rparr>]"
  by (simp add: filterOptions_def)

end
